theory Spec2Isabelle
  imports Main "HOL-Library.Word"
begin

section \<open>The delimited analyzer (delimited_token_stream.cpp)\<close>

text \<open>
  Bytes are \<open>char\<close> (8 bits). An \<open>irs::bytes_ref\<close> is a pointer and a size; the
  null reference \<open>bytes_ref::NIL\<close> is \<open>None\<close>, any other reference \<open>Some\<close> of the
  bytes it covers (possibly none). Sizes (\<open>size_t\<close>) are natural numbers: a buffer is
  shorter than the address space, so no \<open>size_t\<close> sum of the code wraps. The offsets
  are \<open>uint32_t\<close> and do wrap: they are 32-bit words.
\<close>

type_synonym bytes = "char list"
type_synonym bytes_ref = "char list option"

definition quote :: char where
  "quote = CHR 0x22"

definition ref_size :: "bytes_ref \<Rightarrow> nat" where
  "ref_size r = (case r of None \<Rightarrow> 0 | Some d \<Rightarrow> length d)"

text \<open>
  The loop of \<open>eval_term\<close>: \<open>i\<close> runs from 1 to the size of the data, the loop state is
  \<open>escaped\<close>, \<open>start\<close> and the buffer; \<open>break\<close> leaves the loop with the state as it is.
\<close>

function eval_term_loop :: "bytes \<Rightarrow> nat \<Rightarrow> bool \<Rightarrow> nat \<Rightarrow> bytes \<Rightarrow> nat \<times> bytes" where
  "eval_term_loop data i escaped start buf =
     (if i < length data then
        (if data ! i = quote then
           (if escaped \<and> start = i then eval_term_loop data (i + 1) False start buf
            else if escaped then (start, buf)
            else eval_term_loop data (i + 1) True (i + 1)
                   (buf @ take (i - start) (drop start data)))
         else eval_term_loop data (i + 1) escaped start buf)
      else (start, buf))"
  by pat_completeness auto
termination
  by (relation "measure (\<lambda>(data, i, escaped, start, buf). length data - i)") auto

declare eval_term_loop.simps [simp del]

text \<open>
  \<open>eval_term buf data\<close> returns the buffer as the call leaves it and the bytes of the
  reference it returns (the buffer for a well-quoted term, the data otherwise).
\<close>

definition eval_term :: "bytes \<Rightarrow> bytes \<Rightarrow> bytes \<times> bytes" where
  "eval_term buf data =
     (if length data = 0 \<or> quote \<noteq> data ! 0 then (buf, data)
      else (let (start, buf') = eval_term_loop data 1 False 1 []
            in (buf', if start \<noteq> 1 \<and> start = length data then buf' else data)))"

text \<open>
  The loop of \<open>find_delimiter\<close>; \<open>memcmp\<close> of \<open>delim.size()\<close> bytes at position \<open>i\<close> is
  the comparison of the slice with the delimiter.
\<close>

function find_delimiter_loop :: "bytes \<Rightarrow> bytes \<Rightarrow> nat \<Rightarrow> bool \<Rightarrow> nat" where
  "find_delimiter_loop data delim i quoted =
     (if i < length data then
        (if quoted then find_delimiter_loop data delim (i + 1) (\<not> (quote = data ! i))
         else if length data - i < length delim then length data
         else if take (length delim) (drop i data) = delim \<and> (i \<noteq> 0 \<or> length delim \<noteq> 0)
           then i
         else find_delimiter_loop data delim (i + 1) (quote = data ! i))
      else length data)"
  by pat_completeness auto
termination
  by (relation "measure (\<lambda>(data, delim, i, quoted). length data - i)") auto

declare find_delimiter_loop.simps [simp del]

definition find_delimiter :: "bytes \<Rightarrow> bytes_ref \<Rightarrow> nat" where
  "find_delimiter data delim =
     (case delim of None \<Rightarrow> length data | Some d \<Rightarrow> find_delimiter_loop data d 0 False)"

record delimited_token_stream =
  data :: bytes_ref
  delim :: bytes_ref
  delim_buf :: bytes
  offset_start :: "32 word"
  offset_end :: "32 word"
  payload_value :: bytes_ref
  term_value :: bytes_ref
  term_buf :: bytes

text \<open>The constructor: the attributes are empty, the delimiter is copied unless null.\<close>

definition make_delimited :: "bytes_ref \<Rightarrow> delimited_token_stream" where
  "make_delimited delimiter =
     \<lparr> data = None, delim = delimiter,
       delim_buf = (case delimiter of None \<Rightarrow> [] | Some d \<Rightarrow> d),
       offset_start = 0, offset_end = 0,
       payload_value = None, term_value = None, term_buf = [] \<rparr>"

definition delimited_next :: "delimited_token_stream \<Rightarrow> bool \<times> delimited_token_stream" where
  "delimited_next s =
     (case data s of
        None \<Rightarrow> (False, s)
      | Some d \<Rightarrow>
          (let size = find_delimiter d (delim s);
               nxt = max 1 (size + ref_size (delim s));
               start = offset_end s + of_nat (ref_size (delim s));
               end = unat start + size
           in if 2 ^ 32 - 1 < end then (False, s)
              else
                (let payload = take size d;
                     (buf, trm) = (case delim s of
                                     None \<Rightarrow> (term_buf s, payload)
                                   | Some _ \<Rightarrow> eval_term (term_buf s) payload)
                 in (True,
                     s\<lparr> offset_start := start,
                        offset_end := of_nat end,
                        payload_value := Some payload,
                        term_value := Some trm,
                        term_buf := buf,
                        data := (if size \<ge> length d then None else Some (drop nxt d)) \<rparr>))))"

definition delimited_reset ::
  "delimited_token_stream \<Rightarrow> bytes_ref \<Rightarrow> bool \<times> delimited_token_stream" where
  "delimited_reset s input =
     (True, s\<lparr> data := input, offset_start := 0,
               offset_end := 0 - of_nat (ref_size (delim s)) \<rparr>)"

text \<open>
  The caller's loop of section 2 of the specification: after \<open>reset\<close>, \<open>next\<close> is called
  until it returns false. \<open>calls n\<close> is the state after \<open>n\<close> calls, \<open>emitted\<close> the list of
  the states in which \<open>next\<close> returned true (the attributes of the tokens). The measure
  of the unscanned suffix makes \<open>emitted\<close> a total function.
\<close>

definition measure_data :: "delimited_token_stream \<Rightarrow> nat" where
  "measure_data s = (case data s of None \<Rightarrow> 0 | Some d \<Rightarrow> Suc (length d))"

lemma delimited_next_decreases:
  "delimited_next s = (True, s') \<Longrightarrow> measure_data s' < measure_data s"
  by (auto simp: delimited_next_def measure_data_def Let_def
      split: option.splits if_splits prod.splits)

function emitted :: "delimited_token_stream \<Rightarrow> delimited_token_stream list" where
  "emitted s = (case delimited_next s of (ok, s') \<Rightarrow> if ok then s' # emitted s' else [])"
  by pat_completeness auto
termination
  by (relation "measure measure_data") (auto simp: delimited_next_decreases)

declare emitted.simps [simp del]

fun calls :: "nat \<Rightarrow> delimited_token_stream \<Rightarrow> delimited_token_stream" where
  "calls 0 s = s"
| "calls (Suc n) s = calls n (snd (delimited_next s))"

definition term_of :: "delimited_token_stream \<Rightarrow> bytes" where
  "term_of s = (case term_value s of None \<Rightarrow> [] | Some t \<Rightarrow> t)"

definition payload_of :: "delimited_token_stream \<Rightarrow> bytes" where
  "payload_of s = (case payload_value s of None \<Rightarrow> [] | Some t \<Rightarrow> t)"

text \<open>
  A quoted term is one that passes the first test of \<open>eval_term\<close> (``not a quoted term
  (even if quotes inside)'' otherwise). \<open>join\<close> puts the delimiter between the terms.
\<close>

definition quoted_term :: "bytes \<Rightarrow> bool" where
  "quoted_term p = (\<not> (length p = 0 \<or> quote \<noteq> p ! 0))"

fun join :: "bytes \<Rightarrow> bytes list \<Rightarrow> bytes" where
  "join dl [] = []"
| "join dl [x] = x"
| "join dl (x # y # ys) = x @ dl @ join dl (y # ys)"

text \<open>
  The offsets of a token are correct byte offsets into the input when the bytes of the
  input from \<open>offset_start\<close> to \<open>offset_end\<close> are the payload of the token.
\<close>

definition offsets_correct :: "bytes \<Rightarrow> delimited_token_stream \<Rightarrow> bool" where
  "offsets_correct input t =
     (unat (offset_start t) \<le> unat (offset_end t)
      \<and> unat (offset_end t) \<le> length input
      \<and> payload_of t
          = take (unat (offset_end t) - unat (offset_start t)) (drop (unat (offset_start t)) input))"

subsection \<open>Facts about the scan\<close>

lemma ref_size_simps [simp]: "ref_size None = 0" "ref_size (Some d) = length d"
  by (simp_all add: ref_size_def)

lemma unat_of_nat32: "x < 2 ^ 32 \<Longrightarrow> unat (of_nat x :: 32 word) = x"
  by (simp add: unat_of_nat)

lemma find_delimiter_loop_le:
  "i \<le> length d \<Longrightarrow> find_delimiter_loop d dl i q \<le> length d"
  by (induction d dl i q rule: find_delimiter_loop.induct)
     (subst find_delimiter_loop.simps, auto)

lemma find_delimiter_le: "find_delimiter d dl \<le> length d"
  by (simp add: find_delimiter_def find_delimiter_loop_le split: option.splits)

lemma find_delimiter_loop_match:
  "find_delimiter_loop d dl i q = r \<Longrightarrow> r < length d \<Longrightarrow>
     take (length dl) (drop r d) = dl \<and> r + length dl \<le> length d
     \<and> (r \<noteq> 0 \<or> length dl \<noteq> 0)"
proof (induction d dl i q rule: find_delimiter_loop.induct)
  case (1 d dl i q)
  show ?case
    using "1.prems" "1.IH"
    by (auto simp: find_delimiter_loop.simps[of d dl i q] split: if_splits)
qed

lemma find_delimiter_match:
  assumes "find_delimiter d dl < length d"
  shows "\<exists>x. dl = Some x \<and> take (length x) (drop (find_delimiter d dl) d) = x
      \<and> find_delimiter d dl + length x \<le> length d
      \<and> (find_delimiter d dl \<noteq> 0 \<or> length x \<noteq> 0)"
proof (cases dl)
  case None
  with assms show ?thesis by (simp add: find_delimiter_def)
next
  case (Some x)
  with assms have "find_delimiter_loop d x 0 False < length d"
    by (simp add: find_delimiter_def)
  from find_delimiter_loop_match[OF refl this] Some show ?thesis
    by (simp add: find_delimiter_def)
qed

text \<open>A run of bytes that are neither quotes nor the one-byte delimiter is one field.\<close>

lemma find_delimiter_loop_replicate:
  assumes "a \<noteq> quote" "a \<noteq> c" "i \<le> n"
  shows "find_delimiter_loop (replicate n a) [c] i False = n"
  using assms(3)
proof (induction "n - i" arbitrary: i)
  case 0
  then show ?case by (simp add: find_delimiter_loop.simps[of _ _ i])
next
  case (Suc k)
  then have "i < n" by simp
  moreover from Suc have "find_delimiter_loop (replicate n a) [c] (i + 1) False = n"
    by simp
  ultimately show ?case using assms(1,2)
    by (simp add: find_delimiter_loop.simps[of _ _ i] take_Suc_conv_app_nth)
qed

lemma find_delimiter_loop_replicate_delim:
  assumes "a \<noteq> quote" "a \<noteq> c" "i \<le> n"
  shows "find_delimiter_loop (replicate n a @ c # rest) [c] i False = n"
  using assms(3)
proof (induction "n - i" arbitrary: i)
  case 0
  then have "i = n" by simp
  then show ?case by (simp add: find_delimiter_loop.simps[of _ _ n])
next
  case (Suc k)
  then have "i < n" by simp
  moreover from Suc
  have "find_delimiter_loop (replicate n a @ c # rest) [c] (i + 1) False = n"
    by simp
  ultimately show ?case using assms(1,2)
    by (simp add: find_delimiter_loop.simps[of _ _ i] nth_append take_Suc_conv_app_nth)
qed

subsection \<open>Facts about \<open>next\<close>\<close>

lemma delimited_next_False: "delimited_next s = (False, s') \<Longrightarrow> s' = s"
  by (auto simp: delimited_next_def Let_def split: option.splits if_splits prod.splits)

lemma emitted_unfold:
  "emitted s = (if fst (delimited_next s)
                then snd (delimited_next s) # emitted (snd (delimited_next s)) else [])"
  by (subst emitted.simps) (simp split: prod.splits)

lemma emitted_None: "data s = None \<Longrightarrow> emitted s = []"
  by (subst emitted_unfold) (simp add: delimited_next_def)

lemma calls_stuck: "\<not> fst (delimited_next s) \<Longrightarrow> calls n s = s"
proof (induction n)
  case 0
  show ?case by simp
next
  case (Suc n)
  from Suc.prems have "snd (delimited_next s) = s"
    using delimited_next_False[of s "snd (delimited_next s)"]
    by (cases "delimited_next s") auto
  with Suc show ?case by simp
qed

lemma calls_exhaust: "measure_data s \<le> n \<Longrightarrow> \<not> fst (delimited_next (calls n s))"
proof (induction n arbitrary: s)
  case 0
  then have "data s = None" by (simp add: measure_data_def split: option.splits)
  then show ?case by (simp add: delimited_next_def)
next
  case (Suc n)
  show ?case
  proof (cases "fst (delimited_next s)")
    case False
    then show ?thesis using calls_stuck[of s "Suc n"] by simp
  next
    case True
    then obtain s' where s': "delimited_next s = (True, s')"
      by (cases "delimited_next s") auto
    from delimited_next_decreases[OF s'] Suc.prems have "measure_data s' \<le> n" by simp
    from Suc.IH[OF this] s' show ?thesis by simp
  qed
qed

lemma length_emitted: "length (emitted s) \<le> measure_data s"
proof (induction s rule: emitted.induct)
  case (1 s)
  show ?case
  proof (cases "delimited_next s")
    case (Pair ok s')
    show ?thesis
    proof (cases ok)
      case True
      with Pair 1 have "length (emitted s') \<le> measure_data s'" by simp
      moreover from Pair True have "measure_data s' < measure_data s"
        by (simp add: delimited_next_decreases)
      ultimately show ?thesis using Pair True by (subst emitted.simps) simp
    next
      case False
      with Pair show ?thesis by (subst emitted.simps) simp
    qed
  qed
qed

lemma measure_data_reset:
  "measure_data (snd (delimited_reset s input)) \<le> ref_size input + 1"
  by (simp add: measure_data_def delimited_reset_def split: option.splits)

lemma next_in_range:
  assumes "data s = Some d" "unat (offset_end s + of_nat (ref_size (delim s))) + length d < 2 ^ 32"
  shows "delimited_next s =
     (True, s\<lparr> offset_start := offset_end s + of_nat (ref_size (delim s)),
               offset_end := of_nat (unat (offset_end s + of_nat (ref_size (delim s))) + find_delimiter d (delim s)),
               payload_value := Some (take (find_delimiter d (delim s)) d),
               term_value := Some (case delim s of None \<Rightarrow> take (find_delimiter d (delim s)) d
                            | Some _ \<Rightarrow> snd (eval_term (term_buf s) (take (find_delimiter d (delim s)) d))),
               term_buf := (case delim s of None \<Rightarrow> term_buf s
                            | Some _ \<Rightarrow> fst (eval_term (term_buf s) (take (find_delimiter d (delim s)) d))),
               data := (if find_delimiter d (delim s) \<ge> length d then None
                        else Some (drop (max 1 (find_delimiter d (delim s) + ref_size (delim s))) d)) \<rparr>)"
proof -
  have "find_delimiter d (delim s) \<le> length d" by (rule find_delimiter_le)
  with assms(2) have "\<not> 2 ^ 32 - 1 < unat (offset_end s + of_nat (ref_size (delim s))) + find_delimiter d (delim s)"
    by simp
  then show ?thesis using assms(1)
    by (simp add: delimited_next_def Let_def split: option.splits prod.splits)
qed

lemma join_payloads:
  assumes "delim s = Some dl" "dl \<noteq> []" "data s = Some d"
    "unat (offset_end s + of_nat (length dl)) + length d < 2 ^ 32"
  shows "join dl (map payload_of (emitted s)) = d \<and> emitted s \<noteq> []"
  using assms
proof (induction "length d" arbitrary: s d rule: less_induct)
  case less
  define n where "n = find_delimiter d (Some dl)"
  define st where "st = offset_end s + of_nat (length dl)"
  have rs: "ref_size (delim s) = length dl" using less.prems(1) by simp
  have n_le: "n \<le> length d" unfolding n_def by (rule find_delimiter_le)
  from less.prems(3,4) rs have rng: "unat (offset_end s + of_nat (ref_size (delim s))) + length d < 2 ^ 32"
    by simp
  note nx = next_in_range[OF less.prems(3) rng, unfolded less.prems(1) ref_size_simps, folded n_def st_def]
  define s' where "s' = snd (delimited_next s)"
  have ok: "fst (delimited_next s)" by (simp add: nx)
  have pl: "payload_of s' = take n d" by (simp add: s'_def nx payload_of_def)
  have dl': "delim s' = Some dl" using less.prems(1) by (simp add: s'_def nx)
  have em: "emitted s = s' # emitted s'"
    by (subst emitted_unfold) (simp add: ok s'_def)
  show ?case
  proof (cases "n < length d")
    case False
    with n_le have "n = length d" by simp
    then have "data s' = None" by (simp add: s'_def nx)
    then have "emitted s' = []" by (rule emitted_None)
    with em pl \<open>n = length d\<close> show ?thesis by simp
  next
    case True
    from find_delimiter_match[of d "Some dl"] True
    have m: "take (length dl) (drop n d) = dl" "n + length dl \<le> length d"
      by (auto simp: n_def)
    from less.prems(2) have mx: "max (Suc 0) (n + length dl) = n + length dl" by (cases dl) auto
    have d': "data s' = Some (drop (n + length dl) d)" using True by (simp add: s'_def nx mx)
    have len: "length (drop (n + length dl) d) < length d" using less.prems(2) True by (cases dl) auto
    have oe: "offset_end s' = of_nat (unat st + n)" by (simp add: s'_def nx)
    have bound: "unat st + n + length dl < 2 ^ 32" using less.prems(4) m(2) by (simp add: st_def)
    have e: "offset_end s' + of_nat (length dl) = (of_nat (unat st + n + length dl) :: 32 word)"
      by (simp add: oe)
    have "unat (offset_end s' + of_nat (length dl)) = unat (of_nat (unat st + n + length dl) :: 32 word)"
      by (simp only: e)
    also have "\<dots> = unat st + n + length dl"
      using bound by (rule unat_of_nat32)
    finally have "unat (offset_end s' + of_nat (length dl)) = unat st + n + length dl" .
    then have inv: "unat (offset_end s' + of_nat (length dl)) + length (drop (n + length dl) d) < 2 ^ 32"
      using less.prems(4) m(2) by (simp add: st_def)
    from less.hyps[OF len dl' less.prems(2) d' inv]
    have ih: "join dl (map payload_of (emitted s')) = drop (n + length dl) d" "emitted s' \<noteq> []"
      by auto
    from ih(2) obtain t ts where ts: "emitted s' = t # ts" by (cases "emitted s'") auto
    have "join dl (map payload_of (emitted s)) = take n d @ dl @ join dl (map payload_of (emitted s'))"
      by (simp add: em pl ts)
    also have "\<dots> = take n d @ take (length dl) (drop n d) @ drop (length dl) (drop n d)"
      by (simp add: ih(1) m(1) add.commute)
    also have "\<dots> = d" by (simp only: append_take_drop_id)
    finally show ?thesis by (simp add: em)
  qed
qed

lemma emitted_from_next: "t \<in> set (emitted s) \<Longrightarrow> \<exists>p. delimited_next p = (True, t)"
proof (induction s rule: emitted.induct)
  case (1 s)
  show ?case
  proof (cases "delimited_next s")
    case (Pair ok s')
    with "1.prems" have ok: ok by (subst (asm) emitted.simps) (auto split: if_splits)
    with "1.prems" Pair have "t = s' \<or> t \<in> set (emitted s')"
      by (subst (asm) emitted.simps) auto
    then show ?thesis using "1.IH"[OF Pair[symmetric] ok] Pair ok by auto
  qed
qed

lemma eval_term_unquoted: "\<not> quoted_term p \<Longrightarrow> eval_term b p = (b, p)"
  by (auto simp: quoted_term_def eval_term_def)

lemma term_is_payload:
  "delimited_next p = (True, t) \<Longrightarrow> \<not> quoted_term (payload_of t) \<Longrightarrow> term_of t = payload_of t"
  by (auto simp: delimited_next_def Let_def term_of_def payload_of_def eval_term_unquoted
      split: option.splits if_splits prod.splits)

lemma emitted_offsets_correct:
  assumes "data s = Some d" "input = p @ d"
    "unat (offset_end s + of_nat (ref_size (delim s))) = length p" "length input < 2 ^ 32"
  shows "list_all (offsets_correct input) (emitted s)"
  using assms
proof (induction "length d" arbitrary: s d p rule: less_induct)
  case less
  define n where "n = find_delimiter d (delim s)"
  define k where "k = ref_size (delim s)"
  have n_le: "n \<le> length d" unfolding n_def by (rule find_delimiter_le)
  have rng: "unat (offset_end s + of_nat (ref_size (delim s))) + length d < 2 ^ 32"
    using less.prems(2,3,4) by simp
  note nx = next_in_range[OF less.prems(1) rng, folded n_def k_def]
  define s' where "s' = snd (delimited_next s)"
  have ok: "fst (delimited_next s)" by (simp add: nx)
  have em: "emitted s = s' # emitted s'"
    by (subst emitted_unfold) (simp add: ok s'_def)
  have st: "unat (offset_start s') = length p"
    using less.prems(3) by (simp add: s'_def nx k_def)
  have b1: "length p + n < 2 ^ 32" using less.prems(2,4) n_le by simp
  have "offset_end s' = of_nat (length p + n)"
    using less.prems(3) by (simp add: s'_def nx k_def)
  then have en: "unat (offset_end s') = length p + n"
    using unat_of_nat32[OF b1] by simp
  have pl: "payload_of s' = take n d" by (simp add: s'_def nx payload_of_def)
  have c: "offsets_correct input s'"
    using n_le by (simp add: offsets_correct_def st en pl less.prems(2))
  show ?case
  proof (cases "n < length d")
    case False
    then have "data s' = None" by (simp add: s'_def nx)
    then have "emitted s' = []" by (rule emitted_None)
    with em c show ?thesis by simp
  next
    case True
    from find_delimiter_match[of d "delim s"] True obtain x where
      x: "delim s = Some x" "n + length x \<le> length d" "n \<noteq> 0 \<or> length x \<noteq> 0"
      unfolding n_def by blast
    have kx: "k = length x" by (simp add: k_def x(1))
    from x(3) have "1 \<le> n + length x" by (cases x) auto
    then have mx: "max (Suc 0) (n + k) = n + k" by (simp add: kx)
    have d': "data s' = Some (drop (n + k) d)" using True by (simp add: s'_def nx mx)
    have len: "length (drop (n + k) d) < length d"
      using True \<open>1 \<le> n + length x\<close> by (simp add: kx)
    have dl': "delim s' = delim s" by (simp add: s'_def nx)
    have inp: "input = (p @ take (n + k) d) @ drop (n + k) d"
      by (simp add: less.prems(2))
    have b2: "length p + n + k < 2 ^ 32" using less.prems(2,4) x(2) by (simp add: kx)
    have "offset_end s' + of_nat (ref_size (delim s')) = (of_nat (length p + n + k) :: 32 word)"
      using \<open>offset_end s' = of_nat (length p + n)\<close> by (simp add: dl' k_def)
    then have "unat (offset_end s' + of_nat (ref_size (delim s'))) = length p + n + k"
      using unat_of_nat32[OF b2] by simp
    then have e': "unat (offset_end s' + of_nat (ref_size (delim s'))) = length (p @ take (n + k) d)"
      using x(2) by (simp add: kx)
    from less.hyps[OF len d' inp e' less.prems(4)] em c show ?thesis by simp
  qed
qed

lemma offsets_correct_below_4GiB:
  assumes "length input < 2 ^ 32"
  shows "list_all (offsets_correct input) (emitted (snd (delimited_reset s (Some input))))"
  using assms
  by (intro emitted_offsets_correct[where p = "[]" and d = input])
     (simp_all add: delimited_reset_def)

lemmas delimited_eval =
  delimited_next_def delimited_reset_def make_delimited_def find_delimiter_def
  find_delimiter_loop.simps eval_term_def eval_term_loop.simps quote_def Let_def

subsection \<open>The claims about the delimited analyzer\<close>

text \<open>
  C2: after \<open>reset(input)\<close> the first token produced by \<open>next()\<close> starts at offset 0,
  for every input and every delimiter (null, empty, of any length). The offset end that
  \<open>reset\<close> leaves is minus the delimiter length in 32-bit arithmetic; the delimiter
  length added to it is 0; so every first successful \<open>next()\<close> sets \<open>offset_start\<close> to
  0; and there is such a first token whenever the input is not null and shorter than
  \<open>2 ^ 32\<close> bytes.
\<close>

theorem first_token_offset_start_zero:
  "offset_end (snd (delimited_reset s input)) = 0 - of_nat (ref_size (delim s))
   \<and> offset_end (snd (delimited_reset s input)) + of_nat (ref_size (delim s)) = 0
   \<and> (\<forall>s'. delimited_next (snd (delimited_reset s input)) = (True, s')
          \<longrightarrow> offset_start s' = 0)
   \<and> (\<forall>d. input = Some d \<and> length d < 2 ^ 32
          \<longrightarrow> fst (delimited_next (snd (delimited_reset s input))))"
proof (intro conjI allI impI)
  show "offset_end (snd (delimited_reset s input)) = 0 - of_nat (ref_size (delim s))"
    by (simp add: delimited_reset_def)
  show "offset_end (snd (delimited_reset s input)) + of_nat (ref_size (delim s)) = 0"
    by (simp add: delimited_reset_def)
next
  fix s'
  assume "delimited_next (snd (delimited_reset s input)) = (True, s')"
  then show "offset_start s' = 0"
    by (auto simp: delimited_next_def delimited_reset_def Let_def
        split: option.splits if_splits prod.splits)
next
  fix d
  assume a: "input = Some d \<and> length d < 2 ^ 32"
  have "find_delimiter d (delim s) \<le> length d" by (rule find_delimiter_le)
  with a have "\<not> 2 ^ 32 - 1 < find_delimiter d (delim s)" by simp
  then show "fst (delimited_next (snd (delimited_reset s input)))"
    using a by (simp add: delimited_next_def delimited_reset_def Let_def split: prod.splits)
qed

theorem first_token_offset_start_zero_witness:
  "delimited_next (snd (delimited_reset (make_delimited (Some '';;'')) (Some ''a;;b'')))
     = (True, \<lparr> data = Some ''b'', delim = Some '';;'', delim_buf = '';;'',
                offset_start = 0, offset_end = 1, payload_value = Some ''a'',
                term_value = Some ''a'', term_buf = [] \<rparr>)
   \<and> offset_end (snd (delimited_reset (make_delimited (Some '';;'')) (Some ''a;;b'')))
       = 4294967294
   \<and> offset_start \<lparr> data = Some ''b'', delim = Some '';;'', delim_buf = '';;'',
                offset_start = 0, offset_end = 1, payload_value = Some ''a'',
                term_value = Some ''a'', term_buf = [] \<rparr> = 0"
proof -
  have n: "delimited_next (snd (delimited_reset (make_delimited (Some '';;'')) (Some ''a;;b'')))
     = (True, \<lparr> data = Some ''b'', delim = Some '';;'', delim_buf = '';;'',
                offset_start = 0, offset_end = 1, payload_value = Some ''a'',
                term_value = Some ''a'', term_buf = [] \<rparr>)"
    by (simp add: delimited_eval)
  have e: "offset_end (snd (delimited_reset (make_delimited (Some '';;'')) (Some ''a;;b'')))
       = 4294967294"
    by (simp add: delimited_reset_def make_delimited_def)
  from first_token_offset_start_zero[of "make_delimited (Some '';;'')" "Some ''a;;b''"] n e
  show ?thesis by simp
qed

text \<open>
  C6: with a delimiter configured, the raw bytes \<open>"a""b"\<close> unwrap to the term \<open>a"b\<close>,
  and the unterminated \<open>"abc\<close> is returned as it is; the same through \<open>next()\<close>, where
  the whole input is one field.
\<close>

theorem eval_term_quoting:
  "snd (eval_term buf [quote, CHR ''a'', quote, quote, CHR ''b'', quote])
     = [CHR ''a'', quote, CHR ''b'']
   \<and> snd (eval_term buf (quote # ''abc'')) = quote # ''abc''
   \<and> term_value (snd (delimited_next (snd (delimited_reset (make_delimited (Some '',''))
        (Some [quote, CHR ''a'', quote, quote, CHR ''b'', quote])))))
     = Some [CHR ''a'', quote, CHR ''b'']
   \<and> term_value (snd (delimited_next (snd (delimited_reset (make_delimited (Some '',''))
        (Some (quote # ''abc''))))))
     = Some (quote # ''abc'')"
  by (simp add: delimited_eval)

text \<open>
  C9, as stated, fails: with the delimiter \<open>,\<close> and the input \<open>,a\<close> the first \<open>next()\<close>
  succeeds with match length 0 and leaves the suffix \<open>a\<close>: it advanced by 1 byte,
  which is less than 1 byte plus the delimiter length.
\<close>

theorem advance_one_plus_delimiter_counterexample:
  "fst (delimited_next (snd (delimited_reset (make_delimited (Some '','')) (Some '',a''))))
   \<and> find_delimiter '',a'' (Some '','') = 0
   \<and> data (snd (delimited_next (snd (delimited_reset (make_delimited (Some '',''))
        (Some '',a''))))) = Some ''a''
   \<and> \<not> (1 + length '','' \<le> length '',a'' - length ''a'')"
  by (simp add: delimited_eval)

text \<open>
  C9, amended: the advance is \<open>max(1, size + delimiter length)\<close>. A successful
  \<open>next()\<close> either ends the input (the suffix becomes null, when no delimiter was found)
  or drops exactly \<open>max 1 (size + delimiter length)\<close> bytes of the suffix, which is at
  least 1 byte and at least the delimiter length. Hence the calls after a \<open>reset(input)\<close>
  terminate: at most \<open>length input + 1\<close> of them return true, and the call after that
  many calls returns false.
\<close>

theorem delimited_next_advances_and_terminates:
  "(\<forall>s' d. delimited_next s = (True, s') \<and> data s = Some d \<longrightarrow>
      (data s' = None \<and> find_delimiter d (delim s) = length d)
      \<or> (data s' = Some (drop (max 1 (find_delimiter d (delim s) + ref_size (delim s))) d)
         \<and> length (drop (max 1 (find_delimiter d (delim s) + ref_size (delim s))) d)
              + max 1 (find_delimiter d (delim s) + ref_size (delim s)) = length d
         \<and> 1 \<le> max 1 (find_delimiter d (delim s) + ref_size (delim s))
         \<and> ref_size (delim s) \<le> max 1 (find_delimiter d (delim s) + ref_size (delim s))))
   \<and> \<not> fst (delimited_next (calls (ref_size input + 1) (snd (delimited_reset s0 input))))
   \<and> length (emitted (snd (delimited_reset s0 input))) \<le> ref_size input + 1"
proof (intro conjI allI impI)
  fix s' d
  assume a: "delimited_next s = (True, s') \<and> data s = Some d"
  let ?n = "find_delimiter d (delim s)"
  let ?m = "max 1 (?n + ref_size (delim s))"
  have le: "?n \<le> length d" by (rule find_delimiter_le)
  from a have ds: "data s' = (if ?n \<ge> length d then None else Some (drop ?m d))"
    by (auto simp: delimited_next_def Let_def split: option.splits if_splits prod.splits)
  show "(data s' = None \<and> ?n = length d)
      \<or> (data s' = Some (drop ?m d) \<and> length (drop ?m d) + ?m = length d
         \<and> 1 \<le> ?m \<and> ref_size (delim s) \<le> ?m)"
  proof (cases "?n < length d")
    case False
    with le ds show ?thesis by simp
  next
    case True
    from find_delimiter_match[OF True] obtain x where
      x: "delim s = Some x" "?n + length x \<le> length d" "?n \<noteq> 0 \<or> length x \<noteq> 0"
      by blast
    from x(3) have "1 \<le> ?n + length x" by (cases x) auto
    with x(1) have "?m = ?n + length x" by simp
    with True ds x show ?thesis by simp
  qed
next
  show "\<not> fst (delimited_next (calls (ref_size input + 1) (snd (delimited_reset s0 input))))"
    by (rule calls_exhaust) (rule measure_data_reset)
  show "length (emitted (snd (delimited_reset s0 input))) \<le> ref_size input + 1"
    using length_emitted[of "snd (delimited_reset s0 input)"] measure_data_reset[of s0 input]
    by (rule le_trans)
qed

theorem delimited_next_advances_and_terminates_witness:
  "delimited_next (snd (delimited_reset (make_delimited (Some '','')) (Some '',a'')))
     = (True, \<lparr> data = Some ''a'', delim = Some '','', delim_buf = '','',
                offset_start = 0, offset_end = 0, payload_value = Some [],
                term_value = Some [], term_buf = [] \<rparr>)
   \<and> data (snd (delimited_reset (make_delimited (Some '','')) (Some '',a''))) = Some '',a''
   \<and> max 1 (find_delimiter '',a'' (Some '','') + length '','') = 1
   \<and> \<not> fst (delimited_next (calls 3 (snd (delimited_reset (make_delimited (Some '',''))
           (Some '',a'')))))
   \<and> length (emitted (snd (delimited_reset (make_delimited (Some '','')) (Some '',a''))))
       \<le> 3"
proof -
  let ?s = "snd (delimited_reset (make_delimited (Some '','')) (Some '',a''))"
  have n: "delimited_next ?s
     = (True, \<lparr> data = Some ''a'', delim = Some '','', delim_buf = '','',
                offset_start = 0, offset_end = 0, payload_value = Some [],
                term_value = Some [], term_buf = [] \<rparr>)"
    by (simp add: delimited_eval)
  have d: "data ?s = Some '',a''"
    by (simp add: delimited_reset_def)
  have m: "max 1 (find_delimiter '',a'' (Some '','') + length '','') = 1"
    by (simp add: find_delimiter_def find_delimiter_loop.simps)
  have c: "ref_size (Some '',a'') + 1 = 3" by simp
  from delimited_next_advances_and_terminates[where s = ?s
      and s0 = "make_delimited (Some '','')" and input = "Some '',a''", unfolded c]
  have "\<not> fst (delimited_next (calls 3 ?s))" and "length (emitted ?s) \<le> 3"
    by blast+
  with n d m show ?thesis by (intro conjI)
qed

text \<open>
  C5, as stated for every input, fails: an input of \<open>2 ^ 32\<close> bytes \<open>a\<close> has no quote
  and no delimiter \<open>,\<close> in it; its one field does not fit the 32-bit offsets, so the
  first \<open>next()\<close> returns false, no term is emitted, and joining the terms gives the
  empty sequence, not the input.
\<close>

theorem join_terms_counterexample:
  "quote \<notin> set (replicate 4294967296 (CHR ''a''))
   \<and> emitted (snd (delimited_reset (make_delimited (Some '',''))
        (Some (replicate 4294967296 (CHR ''a''))))) = []
   \<and> join '','' (map term_of (emitted (snd (delimited_reset (make_delimited (Some '',''))
        (Some (replicate 4294967296 (CHR ''a'')))))))
       \<noteq> replicate 4294967296 (CHR ''a'')"
proof -
  let ?s = "snd (delimited_reset (make_delimited (Some '',''))
              (Some (replicate 4294967296 (CHR ''a''))))"
  have fd: "find_delimiter_loop (replicate 4294967296 (CHR ''a'')) '','' 0 False = 4294967296"
    by (rule find_delimiter_loop_replicate) (simp_all add: quote_def)
  have "\<not> fst (delimited_next ?s)"
    by (simp add: delimited_next_def delimited_reset_def make_delimited_def
        find_delimiter_def fd)
  then have em: "emitted ?s = []"
    by (subst emitted_unfold) simp
  have "replicate 4294967296 (CHR ''a'') \<noteq> []" by simp
  then show ?thesis by (simp add: em quote_def)
qed

text \<open>
  C5, amended: for a non-empty delimiter and every input shorter than \<open>2 ^ 32\<close> bytes
  in which no field is a quoted term, the terms emitted by the successive \<open>next()\<close>
  calls after \<open>reset(input)\<close>, joined with the delimiter, are the input.
\<close>

theorem join_terms_reproduces_input:
  assumes "delim s = Some dl" "dl \<noteq> []" "length input < 2 ^ 32"
    "\<forall>t \<in> set (emitted (snd (delimited_reset s (Some input)))). \<not> quoted_term (payload_of t)"
  shows "join dl (map term_of (emitted (snd (delimited_reset s (Some input))))) = input"
proof -
  let ?s0 = "snd (delimited_reset s (Some input))"
  have eq: "map term_of (emitted ?s0) = map payload_of (emitted ?s0)"
    using assms(4) emitted_from_next term_is_payload by (intro map_cong) blast+
  have "join dl (map payload_of (emitted ?s0)) = input"
    using join_payloads[of ?s0 dl input] assms(1-3) by (simp add: delimited_reset_def)
  then show ?thesis by (simp only: eq)
qed

theorem join_terms_reproduces_input_witness:
  "delim (make_delimited (Some '','')) = Some '',''
   \<and> map payload_of (emitted (snd (delimited_reset (make_delimited (Some '',''))
        (Some ''a,,b c'')))) = [''a'', [], ''b c'']
   \<and> \<not> quoted_term ''a'' \<and> \<not> quoted_term [] \<and> \<not> quoted_term ''b c''
   \<and> join '','' (map term_of (emitted (snd (delimited_reset (make_delimited (Some '',''))
        (Some ''a,,b c'')))))
       = ''a,,b c''"
proof -
  let ?s = "make_delimited (Some '','')"
  let ?e = "emitted (snd (delimited_reset ?s (Some ''a,,b c'')))"
  have d: "delim ?s = Some '',''" by (simp add: make_delimited_def)
  have e: "?e =
     [\<lparr> data = Some '',b c'', delim = Some '','', delim_buf = '','',
        offset_start = 0, offset_end = 1, payload_value = Some ''a'',
        term_value = Some ''a'', term_buf = [] \<rparr>,
      \<lparr> data = Some ''b c'', delim = Some '','', delim_buf = '','',
        offset_start = 2, offset_end = 2, payload_value = Some [],
        term_value = Some [], term_buf = [] \<rparr>,
      \<lparr> data = None, delim = Some '','', delim_buf = '','',
        offset_start = 3, offset_end = 6, payload_value = Some ''b c'',
        term_value = Some ''b c'', term_buf = [] \<rparr>]"
    by (simp add: emitted_unfold delimited_eval)
  have p: "map payload_of ?e = [''a'', [], ''b c'']"
    by (simp add: e payload_of_def)
  have q: "\<not> quoted_term ''a''" "\<not> quoted_term []" "\<not> quoted_term ''b c''"
    by (simp_all add: quoted_term_def quote_def)
  have h: "\<forall>t \<in> set ?e. \<not> quoted_term (payload_of t)"
    by (simp add: e payload_of_def quoted_term_def quote_def)
  have "join '','' (map term_of ?e) = ''a,,b c''"
    by (rule join_terms_reproduces_input[OF d _ _ h]) simp_all
  with d p q show ?thesis by (intro conjI)
qed

text \<open>
  C3 fails on the code. With the delimiter \<open>,\<close> and the input of \<open>2 ^ 32 - 1\<close> bytes
  \<open>a\<close> followed by \<open>,b\<close>, the first \<open>next()\<close> emits the field of the \<open>a\<close>s with the
  offsets 0 and \<open>2 ^ 32 - 1\<close>. The second call computes the start
  \<open>offset_.end + uint32_t(delim_.size())\<close> in 32 bits, which wraps to 0; the end,
  \<open>0 + 1\<close>, passes the test against the 32-bit maximum; and the token \<open>b\<close>, whose
  bytes are at the offsets \<open>2 ^ 32\<close> to \<open>2 ^ 32 + 1\<close> of the input, is emitted with
  the offsets 0 and 1. (For inputs shorter than \<open>2 ^ 32\<close> bytes the offsets of every
  token are correct: lemma \<open>offsets_correct_below_4GiB\<close>.)
\<close>

theorem offset_start_wraps_past_4GiB:
  "delimited_next (snd (delimited_reset (make_delimited (Some '',''))
      (Some (replicate 4294967295 (CHR ''a'') @ '',b''))))
     = (True, \<lparr> data = Some ''b'', delim = Some '','', delim_buf = '','',
                offset_start = 0, offset_end = 4294967295,
                payload_value = Some (replicate 4294967295 (CHR ''a'')),
                term_value = Some (replicate 4294967295 (CHR ''a'')), term_buf = [] \<rparr>)
   \<and> delimited_next (snd (delimited_next (snd (delimited_reset (make_delimited (Some '',''))
      (Some (replicate 4294967295 (CHR ''a'') @ '',b''))))))
     = (True, \<lparr> data = None, delim = Some '','', delim_buf = '','',
                offset_start = 0, offset_end = 1, payload_value = Some ''b'',
                term_value = Some ''b'', term_buf = [] \<rparr>)
   \<and> take 1 (drop 4294967296 (replicate 4294967295 (CHR ''a'') @ '',b'')) = ''b''
   \<and> take 1 (drop 0 (replicate 4294967295 (CHR ''a'') @ '',b'')) = ''a''"
proof -
  let ?inp = "replicate 4294967295 (CHR ''a'') @ '',b''"
  have fd: "find_delimiter_loop ?inp '','' 0 False = 4294967295"
    by (simp add: find_delimiter_loop_replicate_delim quote_def)
  have n1: "delimited_next (snd (delimited_reset (make_delimited (Some '','')) (Some ?inp)))
    = (True, \<lparr> data = Some ''b'', delim = Some '','', delim_buf = '','',
               offset_start = 0, offset_end = 4294967295,
               payload_value = Some (replicate 4294967295 (CHR ''a'')),
               term_value = Some (replicate 4294967295 (CHR ''a'')), term_buf = [] \<rparr>)"
    by (simp add: delimited_next_def delimited_reset_def make_delimited_def
        find_delimiter_def fd eval_term_def quote_def Let_def)
  have w: "(4294967296 :: 32 word) = 0" by simp
  have n2: "delimited_next (snd (delimited_next (snd (delimited_reset
        (make_delimited (Some '','')) (Some ?inp)))))
     = (True, \<lparr> data = None, delim = Some '','', delim_buf = '','',
                offset_start = 0, offset_end = 1, payload_value = Some ''b'',
                term_value = Some ''b'', term_buf = [] \<rparr>)"
    unfolding n1
    by (simp add: delimited_next_def find_delimiter_def find_delimiter_loop.simps
        eval_term_def quote_def Let_def w)
  have t: "take 1 (drop 4294967296 ?inp) = ''b''" "take 1 (drop 0 ?inp) = ''a''"
    by (simp_all add: take_Suc_conv_app_nth nth_append)
  from n1 n2 t show ?thesis by (intro conjI)
qed

text \<open>
  C10: \<open>reset\<close> of the delimited analyzer returns true for every input (null, empty or
  not) and every configured delimiter (null, empty or not), from every state.
\<close>

theorem delimited_reset_never_fails:
  "fst (delimited_reset s input) = True"
  by (simp add: delimited_reset_def)

section \<open>The linguistic analyzer (text_token_stream.cpp)\<close>

subsection \<open>Options and stopwords\<close>

text \<open>
  \<open>options_t\<close> as the source uses it. \<open>explicit_stopwords\<close> is a set of strings that the
  source fills with \<open>emplace\<close> and iterates; it is the list of its elements in iteration
  order. The field \<open>locale\<close> is \<open>locale_name\<close> here. A resolved stopword set
  (\<open>stopwords_t\<close>) is only searched and added to: it is a set.
\<close>

datatype case_convert_t = LOWER | NONE | UPPER

record options_t =
  case_convert :: case_convert_t
  explicit_stopwords :: "string list"
  explicit_stopwords_set :: bool
  locale_name :: string
  no_accent :: bool
  no_stem :: bool
  stopwordsPath :: string

type_synonym stopwords_t = "string set"

text \<open>The test \<open>options.stopwordsPath.empty() || options.stopwordsPath[0] != 0\<close>.\<close>

definition path_is_set :: "string \<Rightarrow> bool" where
  "path_is_set p = (p = [] \<or> p ! 0 \<noteq> CHR 0x00)"

text \<open>
  The filesystem is a parameter. For the path argument of \<open>get_stopwords\<close> (\<open>None\<close> is
  \<open>string_ref::NIL\<close>: the environment variable, or the current directory) and the
  locale name it answers \<open>None\<close> when the directory of the language cannot be resolved
  or visited (absoluteness unknown, no such directory, an exception), and otherwise the
  entries the visitor sees, in order: one whose kind cannot be identified, a non-file, a
  file that cannot be opened, or a file with its lines. Every call of \<open>get_stopwords\<close>
  is recorded as a \<open>Load\<close>.
\<close>

datatype dir_entry = Unidentified | NonFile | Unopenable | File "string list"

type_synonym filesystem = "string option \<Rightarrow> string \<Rightarrow> dir_entry list option"

datatype fs_load = Load "string option" string

definition isspace :: "char \<Rightarrow> bool" where
  "isspace c = (c \<in> {CHR 0x20, CHR 0x09, CHR 0x0A, CHR 0x0B, CHR 0x0C, CHR 0x0D})"

fun read_lines :: "string list \<Rightarrow> stopwords_t \<Rightarrow> stopwords_t" where
  "read_lines [] stopwords = stopwords"
| "read_lines (line # lines) stopwords =
     (let i = length (takeWhile (\<lambda>c. \<not> isspace c) line)
      in read_lines lines (if i > 0 then insert (take i line) stopwords else stopwords))"

fun visit_directory :: "dir_entry list \<Rightarrow> stopwords_t \<Rightarrow> stopwords_t option" where
  "visit_directory [] stopwords = Some stopwords"
| "visit_directory (Unidentified # es) stopwords = None"
| "visit_directory (NonFile # es) stopwords = visit_directory es stopwords"
| "visit_directory (Unopenable # es) stopwords = None"
| "visit_directory (File lines # es) stopwords = visit_directory es (read_lines lines stopwords)"

definition get_stopwords ::
  "filesystem \<Rightarrow> stopwords_t \<Rightarrow> string \<Rightarrow> string option \<Rightarrow> bool \<times> stopwords_t \<times> fs_load list" where
  "get_stopwords fs buf loc path =
     (case fs path loc of
        None \<Rightarrow> (False, buf, [Load path loc])
      | Some entries \<Rightarrow>
          (case visit_directory entries {} of
             None \<Rightarrow> (False, buf, [Load path loc])
           | Some stopwords \<Rightarrow> (True, buf \<union> stopwords, [Load path loc])))"

definition build_stopwords ::
  "filesystem \<Rightarrow> options_t \<Rightarrow> stopwords_t \<Rightarrow> bool \<times> stopwords_t \<times> fs_load list" where
  "build_stopwords fs options buf =
     (let buf1 = (if explicit_stopwords options \<noteq> []
                  then buf \<union> set (explicit_stopwords options) else buf)
      in if path_is_set (stopwordsPath options)
           then get_stopwords fs buf1 (locale_name options) (Some (stopwordsPath options))
         else if \<not> explicit_stopwords_set options \<and> explicit_stopwords options = []
           then get_stopwords fs buf1 (locale_name options) None
         else (True, buf1, []))"

subsection \<open>The analyzer\<close>

text \<open>
  ICU, Snowball and the locale utilities are parameters, over any type \<open>'u\<close> of Unicode
  strings: whether each factory succeeds, and what each operation returns
  (\<open>nfc_normalize\<close> is \<open>Normalizer2::normalize\<close>, \<open>None\<close> on an error code;
  \<open>sb_stemmer_stem\<close> is \<open>None\<close> for a null result; \<open>boundaries\<close> gives the boundaries
  after position 0 that the break iterator will report for a text, each with whether its
  rule status is \<open>UBRK_WORD_NONE\<close>). In the analyzer's state a shared pointer is the
  boolean "is set"; the break iterator is its current position and the boundaries still
  to come.
\<close>

record 'u icu =
  make_locale :: "string \<Rightarrow> string option"
  language :: "string \<Rightarrow> string"
  getNFCInstance :: bool
  nfc_normalize :: "'u \<Rightarrow> 'u option"
  createTransliterator :: bool
  transliterate :: "'u \<Rightarrow> 'u"
  createWordInstance :: "string option \<Rightarrow> bool"
  boundaries :: "string option \<Rightarrow> 'u \<Rightarrow> (nat \<times> bool) list"
  toLower :: "string option \<Rightarrow> 'u \<Rightarrow> 'u"
  toUpper :: "string option \<Rightarrow> 'u \<Rightarrow> 'u"
  toUTF8String :: "'u \<Rightarrow> string"
  fromUTF8 :: "string \<Rightarrow> 'u"
  tempSubString :: "'u \<Rightarrow> nat \<Rightarrow> nat \<Rightarrow> 'u"
  append_internal :: "string \<Rightarrow> string \<Rightarrow> string option"
  sb_stemmer_new :: "string \<Rightarrow> bool"
  sb_stemmer_stem :: "string \<Rightarrow> string \<Rightarrow> string option"

record 'u text_token_stream =
  break_iterator :: "(nat \<times> (nat \<times> bool) list) option"
  state_data :: 'u
  icu_locale :: "string option"
  normalizer :: bool
  options :: options_t
  stopwords :: stopwords_t
  stemmer :: bool
  tmp_buf :: string
  transliterator :: bool
  text_term :: bytes
  offs_start :: nat
  offs_end :: nat

definition make_text_token_stream ::
  "'u icu \<Rightarrow> options_t \<Rightarrow> stopwords_t \<Rightarrow> 'u text_token_stream" where
  "make_text_token_stream icu opts stopw =
     \<lparr> break_iterator = None, state_data = fromUTF8 icu [], icu_locale = None,
       normalizer = False, options = opts, stopwords = stopw, stemmer = False,
       tmp_buf = [], transliterator = False, text_term = [], offs_start = 0, offs_end = 0 \<rparr>"

definition process_term ::
  "'u icu \<Rightarrow> 'u text_token_stream \<Rightarrow> 'u \<Rightarrow> bool \<times> 'u text_token_stream" where
  "process_term icu state dat =
     (let word = (case nfc_normalize icu dat of None \<Rightarrow> dat | Some w \<Rightarrow> w);
          word = (case case_convert (options state) of
                    LOWER \<Rightarrow> toLower icu (icu_locale state) word
                  | UPPER \<Rightarrow> toUpper icu (icu_locale state) word
                  | NONE \<Rightarrow> word);
          word = (if transliterator state then transliterate icu word else word);
          word_utf8 = toUTF8String icu word;
          state = state\<lparr> tmp_buf := word_utf8 \<rparr>
      in if word_utf8 \<in> stopwords state then (False, state)
         else if stemmer state then
           (case sb_stemmer_stem icu (language icu (locale_name (options state))) word_utf8 of
              Some v \<Rightarrow> (True, state\<lparr> text_term := v \<rparr>)
            | None \<Rightarrow> (True, state\<lparr> text_term := word_utf8 \<rparr>))
         else (True, state\<lparr> text_term := word_utf8 \<rparr>))"

fun text_next_loop ::
  "'u icu \<Rightarrow> 'u text_token_stream \<Rightarrow> nat \<Rightarrow> (nat \<times> bool) list \<Rightarrow> bool \<times> 'u text_token_stream" where
  "text_next_loop icu state start [] = (False, state\<lparr> break_iterator := Some (start, []) \<rparr>)"
| "text_next_loop icu state start ((end, word_none) # rest) =
     (if word_none then text_next_loop icu state end rest
      else (case process_term icu state (tempSubString icu (state_data state) start (end - start)) of
              (False, state') \<Rightarrow> text_next_loop icu state' end rest
            | (True, state') \<Rightarrow>
                (True, state'\<lparr> offs_start := start, offs_end := end,
                               break_iterator := Some (end, rest) \<rparr>)))"

text \<open>
  \<open>next()\<close> dereferences the break iterator and, in \<open>process_term\<close>, the normalizer:
  where one of them is null the result is \<open>None\<close>.
\<close>

definition text_next :: "'u icu \<Rightarrow> 'u text_token_stream \<Rightarrow> (bool \<times> 'u text_token_stream) option" where
  "text_next icu state =
     (case break_iterator state of
        None \<Rightarrow> None
      | Some (current, rest) \<Rightarrow>
          if rest \<noteq> [] \<and> \<not> normalizer state then None
          else Some (text_next_loop icu state current rest))"

text \<open>
  \<open>reset\<close> runs its blocks in order and returns false at the first that fails, with the
  state as the blocks before it left it.
\<close>

definition and_then :: "bool \<times> 's \<Rightarrow> ('s \<Rightarrow> bool \<times> 's) \<Rightarrow> bool \<times> 's" where
  "and_then r f = (if fst r then f (snd r) else r)"

definition reset_locale :: "'u icu \<Rightarrow> 'u text_token_stream \<Rightarrow> bool \<times> 'u text_token_stream" where
  "reset_locale icu state =
     (if icu_locale state = None
      then (make_locale icu (locale_name (options state)) \<noteq> None,
            state\<lparr> icu_locale := make_locale icu (locale_name (options state)) \<rparr>)
      else (True, state))"

definition reset_normalizer :: "'u icu \<Rightarrow> 'u text_token_stream \<Rightarrow> bool \<times> 'u text_token_stream" where
  "reset_normalizer icu state =
     (if \<not> normalizer state
      then (if getNFCInstance icu then (True, state\<lparr> normalizer := True \<rparr>)
            else (False, state\<lparr> normalizer := False \<rparr>))
      else (True, state))"

definition reset_transliterator ::
  "'u icu \<Rightarrow> 'u text_token_stream \<Rightarrow> bool \<times> 'u text_token_stream" where
  "reset_transliterator icu state =
     (if no_accent (options state) \<and> \<not> transliterator state
      then (if createTransliterator icu then (True, state\<lparr> transliterator := True \<rparr>)
            else (False, state\<lparr> transliterator := False \<rparr>))
      else (True, state))"

definition reset_break_iterator ::
  "'u icu \<Rightarrow> 'u text_token_stream \<Rightarrow> bool \<times> 'u text_token_stream" where
  "reset_break_iterator icu state =
     (if break_iterator state = None
      then (if createWordInstance icu (icu_locale state)
            then (True, state\<lparr> break_iterator := Some (0, []) \<rparr>)
            else (False, state\<lparr> break_iterator := None \<rparr>))
      else (True, state))"

definition reset_stemmer :: "'u icu \<Rightarrow> 'u text_token_stream \<Rightarrow> bool \<times> 'u text_token_stream" where
  "reset_stemmer icu state =
     (True,
      if \<not> no_stem (options state) \<and> \<not> stemmer state
      then state\<lparr> stemmer := sb_stemmer_new icu (language icu (locale_name (options state))) \<rparr>
      else state)"

definition reset_data ::
  "'u icu \<Rightarrow> string \<Rightarrow> 'u text_token_stream \<Rightarrow> bool \<times> 'u text_token_stream" where
  "reset_data icu dat state =
     (case append_internal icu (locale_name (options state)) dat of
        None \<Rightarrow> (False, state)
      | Some data_utf8 \<Rightarrow>
          if length data_utf8 > 2147483647 then (False, state)
          else (True, state\<lparr> state_data := fromUTF8 icu data_utf8,
                             break_iterator :=
                               Some (0, boundaries icu (icu_locale state)
                                          (fromUTF8 icu data_utf8)) \<rparr>))"

definition text_reset ::
  "'u icu \<Rightarrow> 'u text_token_stream \<Rightarrow> string \<Rightarrow> bool \<times> 'u text_token_stream" where
  "text_reset icu state dat =
     and_then (and_then (and_then (and_then (and_then
       (reset_locale icu state)
       (reset_normalizer icu))
       (reset_transliterator icu))
       (reset_break_iterator icu))
       (reset_stemmer icu))
       (reset_data icu dat)"

subsection \<open>The cache of compiled options\<close>

text \<open>
  The fields \<open>key_\<close> and \<open>stopwords_\<close> of \<open>cached_options_t\<close> are \<open>cached_key\<close> and
  \<open>cached_stopwords\<close>. The map \<open>cached_state_by_key\<close> is passed in and returned. The two
  overloads of \<open>construct\<close> are \<open>construct\<close> (key, options, stopwords) and
  \<open>construct_key\<close> (key only).
\<close>

record cached_options_t = options_t +
  cached_key :: string
  cached_stopwords :: stopwords_t

type_synonym cache = "string \<Rightarrow> cached_options_t option"

definition ref_bytes :: "string option \<Rightarrow> string" where
  "ref_bytes r = (case r of None \<Rightarrow> [] | Some d \<Rightarrow> d)"

text \<open>
  Modelled from the spec: the default-constructed \<open>options_t\<close>. Its declaration
  (text_token_stream.hpp) is not under src/. Section 6 of the specification gives the
  defaults \<open>caseConvert = none\<close>, \<open>noAccent = false\<close>, \<open>noStem = false\<close>, no stopwords
  and no stopwords path; an unset path is, by the test the source applies
  (\<open>stopwordsPath.empty() || stopwordsPath[0] != 0\<close>), a non-empty string whose first
  byte is 0.
\<close>

definition default_options :: options_t where
  "default_options =
     \<lparr> case_convert = NONE, explicit_stopwords = [], explicit_stopwords_set = False,
       locale_name = [], no_accent = False, no_stem = False, stopwordsPath = [CHR 0x00] \<rparr>"

definition generator :: "string option \<Rightarrow> cached_options_t \<Rightarrow> cached_options_t" where
  "generator key v = (case key of None \<Rightarrow> v | Some k \<Rightarrow> v\<lparr> cached_key := k \<rparr>)"

text \<open>
  Modelled from the spec: \<open>irs::map_utils::try_emplace_update_key\<close> (utils/map_utils.hpp)
  is not under src/. By sections 3 and 4.6 of the specification the first build for a
  key wins: when the key is in the map the entry found is returned and the map is left
  alone; otherwise an entry is built from the arguments, the generator stores the key in
  it, and it is inserted.
\<close>

definition try_emplace_update_key ::
  "cache \<Rightarrow> string option \<Rightarrow> options_t \<Rightarrow> stopwords_t \<Rightarrow> cached_options_t \<times> cache" where
  "try_emplace_update_key m key opts stopw =
     (case m (ref_bytes key) of
        Some existing \<Rightarrow> (existing, m)
      | None \<Rightarrow>
          (let v = generator key (options_t.extend opts (cached_options_t.fields [] stopw))
           in (v, m(ref_bytes key \<mapsto> v))))"

definition construct ::
  "'u icu \<Rightarrow> cache \<Rightarrow> string option \<Rightarrow> options_t \<Rightarrow> stopwords_t
     \<Rightarrow> 'u text_token_stream \<times> cache" where
  "construct icu m cache_key opts stopw =
     (let (options_ptr, m') = try_emplace_update_key m cache_key opts stopw
      in (make_text_token_stream icu (options_t.truncate options_ptr) (cached_stopwords options_ptr),
          m'))"

definition construct_key ::
  "filesystem \<Rightarrow> 'u icu \<Rightarrow> cache \<Rightarrow> string option
     \<Rightarrow> 'u text_token_stream option \<times> cache \<times> fs_load list" where
  "construct_key fs icu m cache_key =
     (case m (ref_bytes cache_key) of
        Some itr \<Rightarrow>
          (Some (make_text_token_stream icu (options_t.truncate itr) (cached_stopwords itr)), m, [])
      | None \<Rightarrow>
          (let opts = default_options\<lparr> locale_name := ref_bytes cache_key \<rparr>;
               (ok, stopw, loads) = build_stopwords fs opts {}
           in if \<not> ok then (None, m, loads)
              else (let (a, m') = construct icu m cache_key opts stopw
                    in (Some a, m', loads))))"

definition make_text ::
  "filesystem \<Rightarrow> 'u icu \<Rightarrow> cache \<Rightarrow> string option
     \<Rightarrow> 'u text_token_stream option \<times> cache \<times> fs_load list" where
  "make_text fs icu m args = construct_key fs icu m args"

subsection \<open>The configuration in JSON\<close>

text \<open>
  RapidJSON is a parameter: \<open>Parse\<close> reads a text into a document or fails, \<open>Write\<close>
  renders a document. \<open>GetString()\<close> yields a C string, which the source copies up to
  its first zero byte (\<open>c_str\<close>). The hash set of the explicit stopwords gives its
  elements an iteration order that the source does not fix: \<open>order\<close> proposes the
  order after an insertion, and \<open>emplace\<close> takes it when it is an arrangement of the old
  elements and the new one.
\<close>

datatype json =
  JNull | JBool bool | JNumber int | JString string | JArray "json list"
  | JObject "(string \<times> json) list"

record rapidjson =
  Parse :: "string \<Rightarrow> json option"
  Write :: "json \<Rightarrow> string"

definition c_str :: "string \<Rightarrow> string" where
  "c_str s = takeWhile (\<lambda>c. c \<noteq> CHR 0x00) s"

definition case_convert_map :: "(string \<times> case_convert_t) list" where
  "case_convert_map = [(''lower'', LOWER), (''none'', NONE), (''upper'', UPPER)]"

definition emplace :: "(string list \<Rightarrow> string list) \<Rightarrow> string \<Rightarrow> string list \<Rightarrow> string list" where
  "emplace order x xs =
     (if x \<in> set xs then xs
      else (let ys = order (x # xs)
            in if set ys = insert x (set xs) \<and> length ys = Suc (length xs) then ys
               else x # xs))"

fun parse_stop_words ::
  "(string list \<Rightarrow> string list) \<Rightarrow> json list \<Rightarrow> string list \<Rightarrow> string list option" where
  "parse_stop_words order [] acc = Some acc"
| "parse_stop_words order (JString s # rest) acc =
     parse_stop_words order rest (emplace order (c_str s) acc)"
| "parse_stop_words order (_ # rest) acc = None"

definition parse_path :: "(string \<times> json) list \<Rightarrow> options_t \<Rightarrow> options_t option" where
  "parse_path members opts =
     (case map_of members ''stopwordsPath'' of
        None \<Rightarrow> Some opts
      | Some (JString p) \<Rightarrow> Some (opts\<lparr> stopwordsPath := c_str p \<rparr>)
      | Some _ \<Rightarrow> None)"

definition parse_case_convert :: "(string \<times> json) list \<Rightarrow> options_t \<Rightarrow> options_t option" where
  "parse_case_convert members opts =
     (case map_of members ''caseConvert'' of
        None \<Rightarrow> Some opts
      | Some (JString c) \<Rightarrow>
          (case map_of case_convert_map (c_str c) of
             None \<Rightarrow> None
           | Some v \<Rightarrow> Some (opts\<lparr> case_convert := v \<rparr>))
      | Some _ \<Rightarrow> None)"

definition parse_stopwords_and_path ::
  "(string list \<Rightarrow> string list) \<Rightarrow> (string \<times> json) list \<Rightarrow> options_t \<Rightarrow> options_t option" where
  "parse_stopwords_and_path order members opts =
     (case map_of members ''stopwords'' of
        Some (JArray stop_words) \<Rightarrow>
          (case parse_stop_words order stop_words (explicit_stopwords opts) of
             None \<Rightarrow> None
           | Some sw \<Rightarrow>
               parse_path members
                 (opts\<lparr> explicit_stopwords_set := True, explicit_stopwords := sw \<rparr>))
      | Some _ \<Rightarrow> None
      | None \<Rightarrow> parse_path members opts)"

definition parse_no_accent :: "(string \<times> json) list \<Rightarrow> options_t \<Rightarrow> options_t option" where
  "parse_no_accent members opts =
     (case map_of members ''noAccent'' of
        None \<Rightarrow> Some opts
      | Some (JBool b) \<Rightarrow> Some (opts\<lparr> no_accent := b \<rparr>)
      | Some _ \<Rightarrow> None)"

definition parse_no_stem :: "(string \<times> json) list \<Rightarrow> options_t \<Rightarrow> options_t option" where
  "parse_no_stem members opts =
     (case map_of members ''noStem'' of
        None \<Rightarrow> Some opts
      | Some (JBool b) \<Rightarrow> Some (opts\<lparr> no_stem := b \<rparr>)
      | Some _ \<Rightarrow> None)"

definition parse_options ::
  "(string list \<Rightarrow> string list) \<Rightarrow> (string \<times> json) list \<Rightarrow> string \<Rightarrow> options_t option" where
  "parse_options order members loc =
     Option.bind (parse_case_convert members (default_options\<lparr> locale_name := c_str loc \<rparr>))
       (\<lambda>o1. Option.bind (parse_stopwords_and_path order members o1)
         (\<lambda>o2. Option.bind (parse_no_accent members o2) (parse_no_stem members)))"

definition make_json ::
  "filesystem \<Rightarrow> 'u icu \<Rightarrow> rapidjson \<Rightarrow> (string list \<Rightarrow> string list) \<Rightarrow> cache \<Rightarrow> string option
     \<Rightarrow> 'u text_token_stream option \<times> cache \<times> fs_load list" where
  "make_json fs icu rj order m args =
     (case Parse rj (ref_bytes args) of
        None \<Rightarrow> (None, m, [])
      | Some (JString _) \<Rightarrow> construct_key fs icu m args
      | Some (JObject members) \<Rightarrow>
          (case map_of members ''locale'' of
             Some (JString loc) \<Rightarrow>
               (case parse_options order members loc of
                  None \<Rightarrow> (None, m, [])
                | Some opts \<Rightarrow>
                    (let (ok, stopw, loads) = build_stopwords fs opts {}
                     in if \<not> ok then (None, m, loads)
                        else (let (a, m') = construct icu m args opts stopw
                              in (Some a, m', loads))))
           | _ \<Rightarrow> (None, m, []))
      | Some _ \<Rightarrow> (None, m, []))"

definition config_document :: "options_t \<Rightarrow> json option" where
  "config_document opts =
     (case find (\<lambda>v. snd v = case_convert opts) case_convert_map of
        None \<Rightarrow> None
      | Some case_value \<Rightarrow>
          Some (JObject
            ([(''locale'', JString (locale_name opts)),
              (''caseConvert'', JString (fst case_value))]
             @ (if explicit_stopwords opts \<noteq> [] \<or> explicit_stopwords_set opts
                then [(''stopwords'', JArray (map JString (explicit_stopwords opts)))] else [])
             @ [(''noAccent'', JBool (no_accent opts)), (''noStem'', JBool (no_stem opts))]
             @ (if path_is_set (stopwordsPath opts)
                then [(''stopwordsPath'', JString (stopwordsPath opts))] else []))))"

definition make_json_config :: "rapidjson \<Rightarrow> options_t \<Rightarrow> string \<Rightarrow> bool \<times> string" where
  "make_json_config rj opts definition =
     (case config_document opts of
        None \<Rightarrow> (False, definition)
      | Some doc \<Rightarrow> (True, Write rj doc))"

definition make_text_config :: "options_t \<Rightarrow> string \<Rightarrow> bool \<times> string" where
  "make_text_config opts definition = (True, locale_name opts)"

datatype text_format = json_format | text_format | other_format

definition to_string ::
  "rapidjson \<Rightarrow> 'u text_token_stream \<Rightarrow> text_format \<Rightarrow> string \<Rightarrow> bool \<times> string" where
  "to_string rj a format definition =
     (case format of
        json_format \<Rightarrow> make_json_config rj (options a) definition
      | text_format \<Rightarrow> make_text_config (options a) definition
      | other_format \<Rightarrow> (False, definition))"

subsection \<open>The transform order, in the words of the specification\<close>

text \<open>
  Section 4.4 of the specification: normalize, case-convert, accent-strip (if configured),
  stopword filter, stem (if a stemmer is available and not disabled). \<open>spec_scan\<close> is
  the scan of the boundary spans that emits the first span with linguistic content whose
  transformed string is not a stopword.
\<close>

definition spec_normalize :: "'u icu \<Rightarrow> 'u \<Rightarrow> 'u" where
  "spec_normalize icu span = (case nfc_normalize icu span of Some w \<Rightarrow> w | None \<Rightarrow> span)"

definition spec_case_convert :: "'u icu \<Rightarrow> case_convert_t \<Rightarrow> string option \<Rightarrow> 'u \<Rightarrow> 'u" where
  "spec_case_convert icu cc loc w =
     (if cc = LOWER then toLower icu loc w else if cc = UPPER then toUpper icu loc w else w)"

definition spec_accent_strip :: "'u icu \<Rightarrow> bool \<Rightarrow> 'u \<Rightarrow> 'u" where
  "spec_accent_strip icu configured w = (if configured then transliterate icu w else w)"

definition spec_transform :: "'u icu \<Rightarrow> options_t \<Rightarrow> string option \<Rightarrow> 'u \<Rightarrow> string" where
  "spec_transform icu opts loc span =
     toUTF8String icu
       (spec_accent_strip icu (no_accent opts)
          (spec_case_convert icu (case_convert opts) loc (spec_normalize icu span)))"

definition spec_stem :: "'u icu \<Rightarrow> options_t \<Rightarrow> bool \<Rightarrow> string \<Rightarrow> string" where
  "spec_stem icu opts available w =
     (if available \<and> \<not> no_stem opts
      then (case sb_stemmer_stem icu (language icu (locale_name opts)) w of
              Some stemmed \<Rightarrow> stemmed | None \<Rightarrow> w)
      else w)"

fun spec_scan ::
  "'u icu \<Rightarrow> options_t \<Rightarrow> stopwords_t \<Rightarrow> string option \<Rightarrow> bool \<Rightarrow> 'u \<Rightarrow> nat \<Rightarrow> (nat \<times> bool) list
     \<Rightarrow> (nat \<times> nat \<times> string \<times> string \<times> (nat \<times> bool) list) option" where
  "spec_scan icu opts stopw loc available d start [] = None"
| "spec_scan icu opts stopw loc available d start ((end, word_none) # rest) =
     (if word_none then spec_scan icu opts stopw loc available d end rest
      else (let w = spec_transform icu opts loc (tempSubString icu d start (end - start))
            in if w \<in> stopw then spec_scan icu opts stopw loc available d end rest
               else Some (start, end, w, spec_stem icu opts available w, rest)))"

definition accent_stem_inv :: "'u text_token_stream \<Rightarrow> bool" where
  "accent_stem_inv a =
     ((transliterator a \<longrightarrow> no_accent (options a))
      \<and> (stemmer a \<longrightarrow> \<not> no_stem (options a))
      \<and> (break_iterator a \<noteq> None \<longrightarrow>
            normalizer a \<and> (no_accent (options a) \<longrightarrow> transliterator a)))"

inductive reachable :: "'u icu \<Rightarrow> 'u text_token_stream \<Rightarrow> bool" for icu where
  constructed: "reachable icu (make_text_token_stream icu opts stopw)"
| after_reset: "reachable icu a \<Longrightarrow> reachable icu (snd (text_reset icu a input))"
| after_next: "reachable icu a \<Longrightarrow> text_next icu a = Some (ok, a') \<Longrightarrow> reachable icu a'"

lemma process_term_spec:
  assumes "transliterator a = no_accent (options a)" "stemmer a \<longrightarrow> \<not> no_stem (options a)"
  shows "process_term icu a span =
     (let w = spec_transform icu (options a) (icu_locale a) span
      in if w \<in> stopwords a then (False, a\<lparr> tmp_buf := w \<rparr>)
         else (True, a\<lparr> tmp_buf := w,
                        text_term := spec_stem icu (options a) (stemmer a) w \<rparr>))"
  using assms
  by (cases "case_convert (options a)")
     (auto simp: process_term_def spec_transform_def spec_accent_strip_def spec_case_convert_def
       spec_normalize_def spec_stem_def Let_def split: option.splits)

lemma process_term_fields:
  "options (snd (process_term icu a span)) = options a"
  "stopwords (snd (process_term icu a span)) = stopwords a"
  "icu_locale (snd (process_term icu a span)) = icu_locale a"
  "stemmer (snd (process_term icu a span)) = stemmer a"
  "transliterator (snd (process_term icu a span)) = transliterator a"
  "normalizer (snd (process_term icu a span)) = normalizer a"
  "state_data (snd (process_term icu a span)) = state_data a"
  "break_iterator (snd (process_term icu a span)) = break_iterator a"
  by (auto simp: process_term_def Let_def split: option.splits case_convert_t.splits)

lemma text_next_loop_fields:
  "options (snd (text_next_loop icu a start bs)) = options a
   \<and> stopwords (snd (text_next_loop icu a start bs)) = stopwords a
   \<and> icu_locale (snd (text_next_loop icu a start bs)) = icu_locale a
   \<and> stemmer (snd (text_next_loop icu a start bs)) = stemmer a
   \<and> transliterator (snd (text_next_loop icu a start bs)) = transliterator a
   \<and> normalizer (snd (text_next_loop icu a start bs)) = normalizer a
   \<and> state_data (snd (text_next_loop icu a start bs)) = state_data a
   \<and> break_iterator (snd (text_next_loop icu a start bs)) \<noteq> None"
proof (induction bs arbitrary: a start)
  case Nil
  show ?case by simp
next
  case (Cons b bs)
  obtain e n where b: "b = (e, n)" by (cases b)
  obtain ok a' where p: "process_term icu a (tempSubString icu (state_data a) start (e - start)) = (ok, a')"
    by (cases "process_term icu a (tempSubString icu (state_data a) start (e - start))")
  from process_term_fields[of icu a "tempSubString icu (state_data a) start (e - start)"] p
  have f: "options a' = options a" "stopwords a' = stopwords a" "icu_locale a' = icu_locale a"
    "stemmer a' = stemmer a" "transliterator a' = transliterator a" "normalizer a' = normalizer a"
    "state_data a' = state_data a"
    by simp_all
  show ?case
  proof (cases n)
    case True
    with b Cons.IH[of a e] show ?thesis by simp
  next
    case False
    show ?thesis
    proof (cases ok)
      case True
      with b False p f show ?thesis by simp
    next
      case ok: False
      with b False p f Cons.IH[of a' e] show ?thesis by simp
    qed
  qed
qed

lemma text_next_loop_spec:
  assumes "transliterator a = no_accent (options a)" "stemmer a \<longrightarrow> \<not> no_stem (options a)"
  shows "(case spec_scan icu (options a) (stopwords a) (icu_locale a) (stemmer a)
                 (state_data a) start bs of
            None \<Rightarrow> \<not> fst (text_next_loop icu a start bs)
          | Some (s, e, w, t, rest) \<Rightarrow>
              fst (text_next_loop icu a start bs)
              \<and> text_term (snd (text_next_loop icu a start bs)) = t
              \<and> offs_start (snd (text_next_loop icu a start bs)) = s
              \<and> offs_end (snd (text_next_loop icu a start bs)) = e
              \<and> break_iterator (snd (text_next_loop icu a start bs)) = Some (e, rest))"
  using assms
proof (induction bs arbitrary: a start)
  case Nil
  show ?case by simp
next
  case (Cons b bs)
  obtain e n where b: "b = (e, n)" by (cases b)
  let ?span = "tempSubString icu (state_data a) start (e - start)"
  let ?w = "spec_transform icu (options a) (icu_locale a) ?span"
  let ?scan = "spec_scan icu (options a) (stopwords a) (icu_locale a) (stemmer a) (state_data a)"
  note pt = process_term_spec[OF Cons.prems, of icu ?span]
  show ?case
  proof (cases n)
    case True
    have l: "text_next_loop icu a start (b # bs) = text_next_loop icu a e bs"
      using b True by simp
    have s: "?scan start (b # bs) = ?scan e bs"
      using b True by simp
    show ?thesis unfolding l s by (rule Cons.IH[OF Cons.prems])
  next
    case False
    show ?thesis
    proof (cases "?w \<in> stopwords a")
      case True
      let ?a' = "a\<lparr> tmp_buf := ?w \<rparr>"
      have l: "text_next_loop icu a start (b # bs) = text_next_loop icu ?a' e bs"
        using b False True pt by (simp add: Let_def)
      have s: "?scan start (b # bs) = ?scan e bs"
        using b False True by (simp add: Let_def)
      have "transliterator ?a' = no_accent (options ?a')"
        "stemmer ?a' \<longrightarrow> \<not> no_stem (options ?a')"
        using Cons.prems by simp_all
      from Cons.IH[OF this, of e] show ?thesis unfolding l s by simp
    next
      case nostop: False
      have l: "text_next_loop icu a start (b # bs) =
          (True, a\<lparr> tmp_buf := ?w, text_term := spec_stem icu (options a) (stemmer a) ?w,
                    offs_start := start, offs_end := e, break_iterator := Some (e, bs) \<rparr>)"
        using b False nostop pt by (simp add: Let_def)
      have s: "?scan start (b # bs) =
          Some (start, e, ?w, spec_stem icu (options a) (stemmer a) ?w, bs)"
        using b False nostop by (simp add: Let_def)
      show ?thesis unfolding l s by simp
    qed
  qed
qed

lemma and_then_inv:
  assumes "P (snd r)" "\<And>s. P s \<Longrightarrow> P (snd (f s))"
  shows "P (snd (and_then r f))"
  using assms by (simp add: and_then_def)

lemma inv_constructed: "accent_stem_inv (make_text_token_stream icu opts stopw)"
  by (simp add: accent_stem_inv_def make_text_token_stream_def)

lemma inv_reset_locale: "accent_stem_inv a \<Longrightarrow> accent_stem_inv (snd (reset_locale icu a))"
  by (simp add: accent_stem_inv_def reset_locale_def)

lemma inv_reset_normalizer:
  "accent_stem_inv a \<Longrightarrow> accent_stem_inv (snd (reset_normalizer icu a))"
  unfolding accent_stem_inv_def reset_normalizer_def
  by (cases "break_iterator a") auto

lemma inv_reset_transliterator:
  "accent_stem_inv a \<Longrightarrow> accent_stem_inv (snd (reset_transliterator icu a))"
  unfolding accent_stem_inv_def reset_transliterator_def
  by (cases "break_iterator a") auto

lemma inv_reset_stemmer: "accent_stem_inv a \<Longrightarrow> accent_stem_inv (snd (reset_stemmer icu a))"
  unfolding accent_stem_inv_def reset_stemmer_def
  by (cases "break_iterator a") auto

text \<open>The blocks that create the normalizer and the transliterator have been passed.\<close>

definition passed :: "'u text_token_stream \<Rightarrow> bool" where
  "passed a = (normalizer a \<and> (no_accent (options a) \<longrightarrow> transliterator a))"

lemma passed_inv: "accent_stem_inv a \<Longrightarrow> passed a \<Longrightarrow> accent_stem_inv (a\<lparr> break_iterator := b \<rparr>)"
  by (simp add: accent_stem_inv_def passed_def)

lemma passed_transliterator:
  "fst (and_then (and_then r (reset_normalizer icu)) (reset_transliterator icu))
     \<Longrightarrow> passed (snd (and_then (and_then r (reset_normalizer icu)) (reset_transliterator icu)))"
  by (auto simp: and_then_def passed_def reset_normalizer_def reset_transliterator_def
      split: if_splits)

lemma inv_reset_break_iterator:
  "accent_stem_inv a \<Longrightarrow> passed a \<Longrightarrow> accent_stem_inv (snd (reset_break_iterator icu a))"
  by (simp add: reset_break_iterator_def passed_inv)

lemma passed_reset_break_iterator: "passed a \<Longrightarrow> passed (snd (reset_break_iterator icu a))"
  by (simp add: reset_break_iterator_def passed_def)

lemma passed_reset_stemmer: "passed a \<Longrightarrow> passed (snd (reset_stemmer icu a))"
  by (simp add: reset_stemmer_def passed_def)

lemma inv_reset_data:
  "accent_stem_inv a \<Longrightarrow> passed a \<Longrightarrow> accent_stem_inv (snd (reset_data icu input a))"
  by (cases "append_internal icu (locale_name (options a)) input")
     (simp_all add: reset_data_def passed_inv accent_stem_inv_def passed_def)

lemma inv_reset: 
  assumes "accent_stem_inv a"
  shows "accent_stem_inv (snd (text_reset icu a input))"
proof -
  let ?r1 = "reset_locale icu a"
  let ?r2 = "and_then ?r1 (reset_normalizer icu)"
  let ?r3 = "and_then ?r2 (reset_transliterator icu)"
  let ?r4 = "and_then ?r3 (reset_break_iterator icu)"
  let ?r5 = "and_then ?r4 (reset_stemmer icu)"
  have i1: "accent_stem_inv (snd ?r1)" using assms by (rule inv_reset_locale)
  have i2: "accent_stem_inv (snd ?r2)" using i1 by (simp add: and_then_def inv_reset_normalizer)
  have i3: "accent_stem_inv (snd ?r3)" using i2 by (simp add: and_then_def inv_reset_transliterator)
  have p3: "fst ?r3 \<Longrightarrow> passed (snd ?r3)" by (rule passed_transliterator)
  have i4: "accent_stem_inv (snd ?r4)" using i3 p3
    by (simp add: and_then_def[of ?r3] inv_reset_break_iterator)
  have p4: "fst ?r4 \<Longrightarrow> passed (snd ?r4)" using p3
    by (simp add: and_then_def[of ?r3] passed_reset_break_iterator split: if_splits)
  have i5: "accent_stem_inv (snd ?r5)" using i4
    by (simp add: and_then_def[of ?r4] inv_reset_stemmer)
  have p5: "fst ?r5 \<Longrightarrow> passed (snd ?r5)" using p4
    by (simp add: and_then_def[of ?r4] passed_reset_stemmer split: if_splits)
  show ?thesis using i5 p5
    by (simp add: text_reset_def and_then_def[of ?r5] inv_reset_data)
qed

lemma inv_next:
  assumes "accent_stem_inv a" "text_next icu a = Some (ok, a')"
  shows "accent_stem_inv a'"
proof -
  from assms(2) obtain cur bs where bi: "break_iterator a = Some (cur, bs)"
    and r: "text_next_loop icu a cur bs = (ok, a')"
    by (auto simp: text_next_def split: option.splits if_splits)
  from text_next_loop_fields[of icu a cur bs] r assms(1) bi show ?thesis
    by (simp add: accent_stem_inv_def)
qed

lemma reachable_inv: "reachable icu a \<Longrightarrow> accent_stem_inv a"
  by (induction rule: reachable.induct) (auto intro: inv_constructed inv_reset inv_next)

subsection \<open>An example environment\<close>

text \<open>A small environment to run the analyzer on ASCII text.\<close>

fun ascii_boundaries :: "nat \<Rightarrow> string \<Rightarrow> (nat \<times> bool) list" where
  "ascii_boundaries pos [] = []"
| "ascii_boundaries pos [c] = [(Suc pos, c = CHR '' '')]"
| "ascii_boundaries pos (c # d # cs) =
     (if (c = CHR '' '') = (d = CHR '' '') then ascii_boundaries (Suc pos) (d # cs)
      else (Suc pos, c = CHR '' '') # ascii_boundaries (Suc pos) (d # cs))"

definition ascii_lower :: "char \<Rightarrow> char" where
  "ascii_lower c =
     (case map_of (zip ''ABCDEFGHIJKLMNOPQRSTUVWXYZ'' ''abcdefghijklmnopqrstuvwxyz'') c of
        Some l \<Rightarrow> l | None \<Rightarrow> c)"

definition ascii_upper :: "char \<Rightarrow> char" where
  "ascii_upper c =
     (case map_of (zip ''abcdefghijklmnopqrstuvwxyz'' ''ABCDEFGHIJKLMNOPQRSTUVWXYZ'') c of
        Some u \<Rightarrow> u | None \<Rightarrow> c)"

definition plural_stem :: "string \<Rightarrow> string option" where
  "plural_stem w = (if w = [] then None else if last w = CHR ''s'' then Some (butlast w) else Some w)"

definition ascii_icu :: "string icu" where
  "ascii_icu =
     \<lparr> make_locale = (\<lambda>n. if n = [] then None else Some n),
       language = take 2,
       getNFCInstance = True,
       nfc_normalize = Some,
       createTransliterator = True,
       transliterate = filter (\<lambda>c. c \<noteq> CHR 0x27),
       createWordInstance = (\<lambda>l. True),
       boundaries = (\<lambda>l. ascii_boundaries 0),
       toLower = (\<lambda>l. map ascii_lower),
       toUpper = (\<lambda>l. map ascii_upper),
       toUTF8String = id,
       fromUTF8 = id,
       tempSubString = (\<lambda>d start len. take len (drop start d)),
       append_internal = (\<lambda>l d. Some d),
       sb_stemmer_new = (\<lambda>l. l = ''en''),
       sb_stemmer_stem = (\<lambda>l. plural_stem) \<rparr>"

definition example_options :: options_t where
  "example_options =
     \<lparr> case_convert = LOWER, explicit_stopwords = [''the''], explicit_stopwords_set = True,
       locale_name = ''en_US'', no_accent = True, no_stem = False, stopwordsPath = [CHR 0x00] \<rparr>"

lemma and_then_simps:
  "and_then (True, s) f = f s" "and_then (False, s) f = (False, s)"
  by (simp_all add: and_then_def)

lemma ascii_icu_simps:
  "make_locale ascii_icu = (\<lambda>n. if n = [] then None else Some n)"
  "language ascii_icu = take 2"
  "getNFCInstance ascii_icu = True"
  "nfc_normalize ascii_icu = Some"
  "createTransliterator ascii_icu = True"
  "transliterate ascii_icu = filter (\<lambda>c. c \<noteq> CHR 0x27)"
  "createWordInstance ascii_icu = (\<lambda>l. True)"
  "boundaries ascii_icu = (\<lambda>l. ascii_boundaries 0)"
  "toLower ascii_icu = (\<lambda>l. map ascii_lower)"
  "toUpper ascii_icu = (\<lambda>l. map ascii_upper)"
  "toUTF8String ascii_icu = id"
  "fromUTF8 ascii_icu = id"
  "tempSubString ascii_icu = (\<lambda>d start len. take len (drop start d))"
  "append_internal ascii_icu = (\<lambda>l d. Some d)"
  "sb_stemmer_new ascii_icu = (\<lambda>l. l = ''en'')"
  "sb_stemmer_stem ascii_icu = (\<lambda>l. plural_stem)"
  by (simp_all add: ascii_icu_def)

lemma example_options_simps:
  "case_convert example_options = LOWER"
  "explicit_stopwords example_options = [''the'']"
  "explicit_stopwords_set example_options = True"
  "locale_name example_options = ''en_US''"
  "no_accent example_options = True"
  "no_stem example_options = False"
  "stopwordsPath example_options = [CHR 0x00]"
  by (simp_all add: example_options_def)

lemmas text_eval =
  and_then_simps text_reset_def reset_locale_def reset_normalizer_def reset_transliterator_def
  reset_break_iterator_def reset_stemmer_def reset_data_def make_text_token_stream_def
  text_next_def process_term_def ascii_icu_simps example_options_simps ascii_lower_def
  ascii_upper_def plural_stem_def Let_def

lemma example_reset:
  "text_reset ascii_icu (make_text_token_stream ascii_icu example_options {''the''}) ''The Cats''
   = (True, \<lparr> break_iterator = Some (0, [(3, False), (4, True), (8, False)]),
       state_data = ''The Cats'', icu_locale = Some ''en_US'',
       normalizer = True, options = example_options, stopwords = {''the''}, stemmer = True,
       tmp_buf = [], transliterator = True, text_term = [], offs_start = 0, offs_end = 0 \<rparr>)"
  by (simp add: text_eval)


definition example_ready :: "string text_token_stream" where
  "example_ready =
     \<lparr> break_iterator = Some (0, [(3, False), (4, True), (8, False)]),
       state_data = ''The Cats'', icu_locale = Some ''en_US'',
       normalizer = True, options = example_options, stopwords = {''the''}, stemmer = True,
       tmp_buf = [], transliterator = True, text_term = [], offs_start = 0, offs_end = 0 \<rparr>"

lemma example_reset2:
  "text_reset ascii_icu (make_text_token_stream ascii_icu example_options {''the''}) ''The Cats''
   = (True, example_ready)"
  by (simp add: text_eval example_ready_def)

lemma ascii_lower_examples:
  "ascii_lower CHR ''T'' = CHR ''t''" "ascii_lower CHR ''h'' = CHR ''h''"
  "ascii_lower CHR ''e'' = CHR ''e''" "ascii_lower CHR ''C'' = CHR ''c''"
  "ascii_lower CHR ''a'' = CHR ''a''" "ascii_lower CHR ''t'' = CHR ''t''"
  "ascii_lower CHR ''s'' = CHR ''s''"
  by (simp_all add: ascii_lower_def)

lemma example_process_The:
  "process_term ascii_icu example_ready ''The'' = (False, example_ready\<lparr> tmp_buf := ''the'' \<rparr>)"
  by (simp add: process_term_def ascii_icu_simps example_options_simps example_ready_def
      ascii_lower_examples Let_def)

lemma example_process_Cats:
  "process_term ascii_icu (example_ready\<lparr> tmp_buf := ''the'' \<rparr>) ''Cats''
     = (True, example_ready\<lparr> tmp_buf := ''cats'', text_term := ''cat'' \<rparr>)"
  by (simp add: process_term_def ascii_icu_simps example_options_simps example_ready_def
      ascii_lower_examples plural_stem_def Let_def)

lemma example_next:
  "text_next ascii_icu example_ready
   = Some (True, example_ready\<lparr> tmp_buf := ''cats'', text_term := ''cat'',
        offs_start := 4, offs_end := 8, break_iterator := Some (8, []) \<rparr>)"
proof -
  have b: "break_iterator example_ready = Some (0, [(3, False), (4, True), (8, False)])"
    "normalizer example_ready" "state_data example_ready = ''The Cats''"
    by (simp_all add: example_ready_def)
  have s: "state_data (example_ready\<lparr> tmp_buf := ''the'' \<rparr>) = ''The Cats''"
    by (simp add: example_ready_def)
  show ?thesis
    by (simp add: text_next_def b s ascii_icu_simps(13) example_process_The example_process_Cats)
qed

lemma example_reachable: "reachable ascii_icu example_ready"
  using reachable.after_reset[OF reachable.constructed,
      of ascii_icu example_options "{''the''}" "''The Cats''"]
  by (simp add: example_reset2)

lemma example_transform:
  "spec_transform ascii_icu example_options (Some ''en_US'') ''The'' = ''the''"
  "spec_transform ascii_icu example_options (Some ''en_US'') ''Cats'' = ''cats''"
  by (simp_all add: spec_transform_def spec_accent_strip_def spec_case_convert_def
      spec_normalize_def ascii_icu_simps example_options_simps ascii_lower_examples)

lemma process_term_filter:
  assumes "transliterator a = no_accent (options a)" "stemmer a \<longrightarrow> \<not> no_stem (options a)"
  shows "fst (process_term icu a span)
     = (spec_transform icu (options a) (icu_locale a) span \<notin> stopwords a)"
  by (simp add: process_term_spec[OF assms] Let_def)

subsection \<open>The claims about the linguistic analyzer\<close>

text \<open>
  C1: when the explicit stopwords are not empty and no stopwords path is set, building
  the stopword set loads nothing from the filesystem and gives exactly the explicit set;
  an analyzer that holds this set then filters exactly the spans whose fully transformed
  string is an explicit stopword.
\<close>

theorem explicit_stopwords_are_authoritative:
  assumes "explicit_stopwords opts \<noteq> []" "\<not> path_is_set (stopwordsPath opts)"
  shows "build_stopwords fs opts {} = (True, set (explicit_stopwords opts), [])
     \<and> (\<forall>icu a span.
           reachable icu a \<and> break_iterator a \<noteq> None
           \<and> stopwords a = fst (snd (build_stopwords fs opts {}))
           \<longrightarrow> fst (process_term icu a span)
               = (spec_transform icu (options a) (icu_locale a) span
                    \<notin> set (explicit_stopwords opts)))"
proof (intro conjI allI impI)
  show b: "build_stopwords fs opts {} = (True, set (explicit_stopwords opts), [])"
    using assms by (simp add: build_stopwords_def)
  fix icu :: "'u icu" and a :: "'u text_token_stream" and span
  assume h: "reachable icu a \<and> break_iterator a \<noteq> None
     \<and> stopwords a = fst (snd (build_stopwords fs opts {}))"
  then have "reachable icu a" by blast
  then have "accent_stem_inv a" by (rule reachable_inv)
  with h have i: "transliterator a = no_accent (options a)" "stemmer a \<longrightarrow> \<not> no_stem (options a)"
    by (auto simp: accent_stem_inv_def)
  from h b have "stopwords a = set (explicit_stopwords opts)" by simp
  with process_term_filter[OF i, of icu span]
  show "fst (process_term icu a span)
      = (spec_transform icu (options a) (icu_locale a) span \<notin> set (explicit_stopwords opts))"
    by simp
qed

theorem explicit_stopwords_are_authoritative_witness:
  "explicit_stopwords example_options = [''the'']
   \<and> stopwordsPath example_options = [CHR 0x00]
   \<and> build_stopwords (\<lambda>path loc. None) example_options {} = (True, {''the''}, [])
   \<and> stopwords example_ready = {''the''}
   \<and> spec_transform ascii_icu (options example_ready) (icu_locale example_ready) ''The'' = ''the''
   \<and> \<not> fst (process_term ascii_icu example_ready ''The'')
   \<and> spec_transform ascii_icu (options example_ready) (icu_locale example_ready) ''Cats'' = ''cats''
   \<and> fst (process_term ascii_icu example_ready ''Cats'')"
proof -
  have e: "explicit_stopwords example_options \<noteq> []" "\<not> path_is_set (stopwordsPath example_options)"
    by (simp_all add: example_options_simps path_is_set_def)
  note t = explicit_stopwords_are_authoritative[OF e, of "\<lambda>path loc. None"]
  have s: "set (explicit_stopwords example_options) = {''the''}"
    by (simp add: example_options_simps)
  have b: "build_stopwords (\<lambda>path loc. None) example_options {} = (True, {''the''}, [])"
    using t[THEN conjunct1] unfolding s .
  have f: "options example_ready = example_options" "icu_locale example_ready = Some ''en_US''"
    "stopwords example_ready = {''the''}" "break_iterator example_ready \<noteq> None"
    by (simp_all add: example_ready_def)
  have pre: "reachable ascii_icu example_ready \<and> break_iterator example_ready \<noteq> None
      \<and> stopwords example_ready = fst (snd (build_stopwords (\<lambda>path loc. None) example_options {}))"
    using example_reachable f(3,4) by (simp add: b)
  note p = t[THEN conjunct2, rule_format, OF pre, unfolded s f]
  have p1: "\<not> fst (process_term ascii_icu example_ready ''The'')"
    unfolding p by (simp add: example_transform)
  have p2: "fst (process_term ascii_icu example_ready ''Cats'')"
    unfolding p by (simp add: example_transform)
  have x: "explicit_stopwords example_options = [''the'']"
    "stopwordsPath example_options = [CHR 0x00]"
    by (simp_all add: example_options_simps)
  have y: "spec_transform ascii_icu (options example_ready) (icu_locale example_ready) ''The'' = ''the''"
    "spec_transform ascii_icu (options example_ready) (icu_locale example_ready) ''Cats'' = ''cats''"
    unfolding f by (rule example_transform)+
  from x b f(3) y p1 p2 show ?thesis by (intro conjI)
qed

text \<open>
  C7: on every analyzer reached from the constructor by \<open>reset\<close> and \<open>next\<close> calls,
  \<open>next()\<close> emits the first boundary span with linguistic content whose transformed
  string (normalized, or left as it is where the normalizer reports an error; then
  case-converted; then accent-stripped if \<open>no_accent\<close> is configured) is not a stopword; spans that match are skipped and the scan continues;
  the term is the stem of the transformed string when a stemmer is set (which implies
  that stemming is not disabled), and the transformed string itself when there is no
  stemmer or stemming fails.
\<close>

theorem term_pipeline_order:
  assumes "reachable icu a" "break_iterator a = Some (current, bs)"
  shows "text_next icu a = Some (text_next_loop icu a current bs)
     \<and> transliterator a = no_accent (options a)
     \<and> (stemmer a \<longrightarrow> \<not> no_stem (options a))
     \<and> (case spec_scan icu (options a) (stopwords a) (icu_locale a) (stemmer a)
                 (state_data a) current bs of
            None \<Rightarrow> \<not> fst (text_next_loop icu a current bs)
          | Some (s, e, w, t, rest) \<Rightarrow>
              fst (text_next_loop icu a current bs)
              \<and> text_term (snd (text_next_loop icu a current bs)) = t
              \<and> offs_start (snd (text_next_loop icu a current bs)) = s
              \<and> offs_end (snd (text_next_loop icu a current bs)) = e
              \<and> break_iterator (snd (text_next_loop icu a current bs)) = Some (e, rest))"
proof -
  from reachable_inv[OF assms(1)] assms(2)
  have i: "transliterator a = no_accent (options a)" "stemmer a \<longrightarrow> \<not> no_stem (options a)"
    "normalizer a"
    by (auto simp: accent_stem_inv_def)
  have "text_next icu a = Some (text_next_loop icu a current bs)"
    using assms(2) i(3) by (simp add: text_next_def)
  with i(1,2) text_next_loop_spec[OF i(1,2), of icu current bs] show ?thesis
    by (intro conjI)
qed

theorem term_pipeline_order_witness:
  "text_reset ascii_icu (make_text_token_stream ascii_icu example_options {''the''}) ''The Cats''
     = (True, example_ready)
   \<and> break_iterator example_ready = Some (0, [(3, False), (4, True), (8, False)])
   \<and> spec_scan ascii_icu (options example_ready) (stopwords example_ready)
        (icu_locale example_ready) (stemmer example_ready) (state_data example_ready) 0
        [(3, False), (4, True), (8, False)]
       = Some (4, 8, ''cats'', ''cat'', [])
   \<and> text_next ascii_icu example_ready
       = Some (True, example_ready\<lparr> tmp_buf := ''cats'', text_term := ''cat'',
            offs_start := 4, offs_end := 8, break_iterator := Some (8, []) \<rparr>)
   \<and> text_term (snd (text_next_loop ascii_icu example_ready 0
          [(3, False), (4, True), (8, False)])) = ''cat''"
proof -
  have b: "break_iterator example_ready = Some (0, [(3, False), (4, True), (8, False)])"
    by (simp add: example_ready_def)
  have f: "options example_ready = example_options" "icu_locale example_ready = Some ''en_US''"
    "stopwords example_ready = {''the''}" "stemmer example_ready"
    "state_data example_ready = ''The Cats''"
    by (simp_all add: example_ready_def)
  have sc: "spec_scan ascii_icu (options example_ready) (stopwords example_ready)
        (icu_locale example_ready) (stemmer example_ready) (state_data example_ready) 0
        [(3, False), (4, True), (8, False)]
       = Some (4, 8, ''cats'', ''cat'', [])"
    by (simp add: f ascii_icu_simps(13) example_transform spec_stem_def ascii_icu_simps(2,16)
        example_options_simps plural_stem_def)
  note c = term_pipeline_order[OF example_reachable b, THEN conjunct2, THEN conjunct2,
      THEN conjunct2, unfolded sc]
  then have t: "text_term (snd (text_next_loop ascii_icu example_ready 0
          [(3, False), (4, True), (8, False)])) = ''cat''"
    by simp
  from example_reset2 b sc example_next t show ?thesis by (intro conjI)
qed

subsection \<open>The cache\<close>

datatype request = MakeText filesystem "string option" | MakeJson filesystem "string option"

definition serve ::
  "'u icu \<Rightarrow> rapidjson \<Rightarrow> (string list \<Rightarrow> string list) \<Rightarrow> cache \<Rightarrow> request
     \<Rightarrow> 'u text_token_stream option \<times> cache \<times> fs_load list" where
  "serve icu rj order m r =
     (case r of
        MakeText fs args \<Rightarrow> make_text fs icu m args
      | MakeJson fs args \<Rightarrow> make_json fs icu rj order m args)"

fun serve_all ::
  "'u icu \<Rightarrow> rapidjson \<Rightarrow> (string list \<Rightarrow> string list) \<Rightarrow> cache \<Rightarrow> request list \<Rightarrow> cache" where
  "serve_all icu rj order m [] = m"
| "serve_all icu rj order m (r # rs) =
     serve_all icu rj order (fst (snd (serve icu rj order m r))) rs"

lemma truncate_generator:
  "options_t.truncate (generator key (options_t.extend opts (cached_options_t.fields k stopw))) = opts"
  "cached_stopwords (generator key (options_t.extend opts (cached_options_t.fields k stopw))) = stopw"
  by (cases key; simp add: generator_def options_t.truncate_def options_t.extend_def
      cached_options_t.fields_def)+

lemma try_emplace_present:
  "m (ref_bytes key) = Some e \<Longrightarrow> try_emplace_update_key m key opts stopw = (e, m)"
  by (simp add: try_emplace_update_key_def)

lemma try_emplace_absent:
  "m (ref_bytes key) = None \<Longrightarrow>
   try_emplace_update_key m key opts stopw
     = (generator key (options_t.extend opts (cached_options_t.fields [] stopw)),
        m(ref_bytes key \<mapsto> generator key (options_t.extend opts (cached_options_t.fields [] stopw))))"
  by (simp add: try_emplace_update_key_def Let_def)

lemma construct_keeps: "m k = Some e \<Longrightarrow> snd (construct icu m key opts stopw) k = Some e"
  by (cases "m (ref_bytes key)")
     (auto simp: construct_def try_emplace_present try_emplace_absent)

lemma construct_key_keeps:
  "m k = Some e \<Longrightarrow> fst (snd (construct_key fs icu m key)) k = Some e"
proof (cases "m (ref_bytes key)")
  case (Some itr)
  assume "m k = Some e"
  with Some show ?thesis by (simp add: construct_key_def)
next
  case None
  assume k: "m k = Some e"
  obtain ok stopw loads where
    b: "build_stopwords fs (default_options\<lparr> locale_name := ref_bytes key \<rparr>) {} = (ok, stopw, loads)"
    by (cases "build_stopwords fs (default_options\<lparr> locale_name := ref_bytes key \<rparr>) {}")
  show ?thesis
  proof (cases ok)
    case False
    with None b k show ?thesis by (simp add: construct_key_def)
  next
    case True
    with None b construct_keeps[where m = m and k = k and e = e and icu = icu and key = key
        and opts = "default_options\<lparr> locale_name := ref_bytes key \<rparr>" and stopw = stopw, OF k]
    show ?thesis by (auto simp: construct_key_def split: prod.splits)
  qed
qed

lemma make_json_keeps:
  assumes k: "m k = Some e"
  shows "fst (snd (make_json fs icu rj order m args)) k = Some e"
proof (cases "Parse rj (ref_bytes args)")
  case None
  with k show ?thesis by (simp add: make_json_def)
next
  case (Some doc)
  show ?thesis
  proof (cases doc)
    case (JString s)
    with Some construct_key_keeps[where m = m and k = k and e = e and fs = fs and icu = icu
        and key = args, OF k] show ?thesis by (simp add: make_json_def)
  next
    case (JObject members)
    show ?thesis
    proof (cases "map_of members ''locale''")
      case None
      with Some JObject k show ?thesis by (simp add: make_json_def)
    next
      case loc: (Some l)
      show ?thesis
      proof (cases l)
        case (JString loc_name)
        show ?thesis
        proof (cases "parse_options order members loc_name")
          case None
          with Some JObject loc JString k show ?thesis by (simp add: make_json_def)
        next
          case opts: (Some opts)
          obtain ok stopw loads where b: "build_stopwords fs opts {} = (ok, stopw, loads)"
            by (cases "build_stopwords fs opts {}")
          show ?thesis
          proof (cases ok)
            case False
            with Some JObject loc JString opts b k show ?thesis by (simp add: make_json_def)
          next
            case True
            with Some JObject loc JString opts b construct_keeps[where m = m and k = k and e = e and icu = icu and key = args
                and opts = opts and stopw = stopw, OF k]
            show ?thesis by (auto simp: make_json_def split: prod.splits)
          qed
        qed
      qed (use Some JObject loc k in \<open>simp_all add: make_json_def\<close>)
    qed
  qed (use Some k in \<open>simp_all add: make_json_def\<close>)
qed

lemma serve_keeps: "m k = Some e \<Longrightarrow> fst (snd (serve icu rj order m r)) k = Some e"
  by (cases r) (simp_all add: serve_def make_text_def construct_key_keeps make_json_keeps)

lemma serve_all_keeps: "m k = Some e \<Longrightarrow> serve_all icu rj order m rs k = Some e"
  by (induction rs arbitrary: m) (simp_all add: serve_keeps)

text \<open>
  C8: a build for a key that is not in the cache inserts the entry of its options and
  stopwords, and the analyzer refers to them; a build or a lookup for a key that is in
  the cache returns an analyzer on the entry found and leaves the cache as it is; and no
  call of \<open>construct\<close>, \<open>make_text\<close> or \<open>make_json\<close>, nor any sequence of requests,
  changes or removes an entry that is in the cache. (The map is only written in the
  critical section of \<open>construct\<close>, so this holds however the critical sections of
  several threads follow one another.)
\<close>

theorem cache_first_build_wins:
  "(m (ref_bytes key) = None \<longrightarrow>
      fst (construct icu m key opts stopw) = make_text_token_stream icu opts stopw
      \<and> (\<exists>e. snd (construct icu m key opts stopw) (ref_bytes key) = Some e
             \<and> options_t.truncate e = opts \<and> cached_stopwords e = stopw))
   \<and> (\<forall>e. m (ref_bytes key) = Some e \<longrightarrow>
        construct icu m key opts stopw
          = (make_text_token_stream icu (options_t.truncate e) (cached_stopwords e), m)
        \<and> construct_key fs icu m key
          = (Some (make_text_token_stream icu (options_t.truncate e) (cached_stopwords e)), m, []))
   \<and> (\<forall>k e. m k = Some e \<longrightarrow>
        snd (construct icu m key opts stopw) k = Some e
        \<and> fst (snd (make_text fs icu m key)) k = Some e
        \<and> fst (snd (make_json fs icu rj order m key)) k = Some e
        \<and> serve_all icu rj order m requests k = Some e)"
proof (intro conjI allI impI)
  assume n: "m (ref_bytes key) = None"
  show "fst (construct icu m key opts stopw) = make_text_token_stream icu opts stopw"
    by (simp add: construct_def try_emplace_absent[where m = m and key = key, OF n] truncate_generator)
  show "\<exists>e. snd (construct icu m key opts stopw) (ref_bytes key) = Some e
             \<and> options_t.truncate e = opts \<and> cached_stopwords e = stopw"
    by (simp add: construct_def try_emplace_absent[where m = m and key = key, OF n] truncate_generator)
next
  fix e assume p: "m (ref_bytes key) = Some e"
  show "construct icu m key opts stopw
          = (make_text_token_stream icu (options_t.truncate e) (cached_stopwords e), m)"
    by (simp add: construct_def try_emplace_present[where m = m and key = key, OF p])
  show "construct_key fs icu m key
          = (Some (make_text_token_stream icu (options_t.truncate e) (cached_stopwords e)), m, [])"
    by (simp add: construct_key_def p)
next
  fix k e assume k: "m k = Some e"
  show "snd (construct icu m key opts stopw) k = Some e" using k by (rule construct_keeps)
  show "fst (snd (make_text fs icu m key)) k = Some e"
    using k by (simp add: make_text_def construct_key_keeps)
  show "fst (snd (make_json fs icu rj order m key)) k = Some e" using k by (rule make_json_keeps)
  show "serve_all icu rj order m requests k = Some e" using k by (rule serve_all_keeps)
qed

theorem cache_first_build_wins_witness:
  "fst (construct ascii_icu Map.empty (Some ''en'') example_options {''the''})
     = make_text_token_stream ascii_icu example_options {''the''}
   \<and> construct ascii_icu
        (snd (construct ascii_icu Map.empty (Some ''en'') example_options {''the''}))
        (Some ''en'') default_options {}
     = (make_text_token_stream ascii_icu example_options {''the''},
        snd (construct ascii_icu Map.empty (Some ''en'') example_options {''the''}))
   \<and> construct_key (\<lambda>path loc. None) ascii_icu
        (snd (construct ascii_icu Map.empty (Some ''en'') example_options {''the''}))
        (Some ''en'')
     = (Some (make_text_token_stream ascii_icu example_options {''the''}),
        snd (construct ascii_icu Map.empty (Some ''en'') example_options {''the''}), [])"
proof -
  let ?m1 = "snd (construct ascii_icu Map.empty (Some ''en'') example_options {''the''})"
  have n: "Map.empty (ref_bytes (Some ''en'')) = (None :: cached_options_t option)" by simp
  note first =
    cache_first_build_wins[where m = Map.empty and key = "Some ''en''" and icu = ascii_icu
      and opts = example_options and stopw = "{''the''}", THEN conjunct1, rule_format, OF n]
  from first obtain e where e: "?m1 (ref_bytes (Some ''en'')) = Some e"
    "options_t.truncate e = example_options" "cached_stopwords e = {''the''}"
    by auto
  note later =
    cache_first_build_wins[where m = ?m1 and key = "Some ''en''" and icu = ascii_icu
      and opts = default_options and stopw = "{}" and fs = "\<lambda>path loc. None",
      THEN conjunct2, THEN conjunct1, rule_format, OF e(1), unfolded e(2,3)]
  from first later show ?thesis by (intro conjI) simp_all
qed

subsection \<open>The round trip of the configuration\<close>

text \<open>
  A valid configuration: its strings are C strings (no zero byte in the locale, in a
  stopword, or in a stopwords path that is set), as \<open>GetString()\<close> delivers them, and
  its explicit stopwords are distinct, as the elements of a set are. \<open>rebuilt\<close> is the
  iteration order of the set that \<open>make_json\<close> fills from a stopwords array, and
  \<open>reparsed\<close> the options that \<open>make_json\<close> reads from the document of a configuration.
\<close>

definition valid_options :: "options_t \<Rightarrow> bool" where
  "valid_options opts =
     (CHR 0x00 \<notin> set (locale_name opts)
      \<and> list_all (\<lambda>w. CHR 0x00 \<notin> set w) (explicit_stopwords opts)
      \<and> distinct (explicit_stopwords opts)
      \<and> (if path_is_set (stopwordsPath opts) then CHR 0x00 \<notin> set (stopwordsPath opts) else True))"

definition rebuilt :: "(string list \<Rightarrow> string list) \<Rightarrow> string list \<Rightarrow> string list" where
  "rebuilt order xs = fold (emplace order) xs []"

lemma c_str_id: "CHR 0x00 \<notin> set s \<Longrightarrow> c_str s = s"
  by (auto simp: c_str_def takeWhile_eq_all_conv)

lemma parse_stop_words_strings:
  "list_all (\<lambda>w. CHR 0x00 \<notin> set w) xs \<Longrightarrow>
   parse_stop_words order (map JString xs) acc = Some (fold (emplace order) xs acc)"
  by (induction xs arbitrary: acc) (simp_all add: c_str_id)

lemma singleton_list: "set ys = {x} \<Longrightarrow> length ys = Suc 0 \<Longrightarrow> ys = [x]"
  by (cases ys) auto

lemma rebuilt_short: "length xs \<le> 1 \<Longrightarrow> rebuilt order xs = xs"
proof (cases xs)
  case Nil
  then show ?thesis by (simp add: rebuilt_def)
next
  case (Cons x ys)
  assume "length xs \<le> 1"
  with Cons have xs: "xs = [x]" by simp
  show ?thesis
    unfolding xs rebuilt_def
    by (simp add: emplace_def Let_def singleton_list)
qed

lemma set_emplace: "set (emplace order x xs) = insert x (set xs)"
  by (auto simp: emplace_def Let_def)

lemma set_fold_emplace: "set (fold (emplace order) xs acc) = set xs \<union> set acc"
  by (induction xs arbitrary: acc) (auto simp: set_emplace)

lemma rebuilt_Nil_iff: "rebuilt order xs = [] \<longleftrightarrow> xs = []"
  using set_fold_emplace[of order xs "[]"] by (auto simp: rebuilt_def simp flip: set_empty)

definition case_convert_name :: "case_convert_t \<Rightarrow> string" where
  "case_convert_name cc = (case cc of LOWER \<Rightarrow> ''lower'' | NONE \<Rightarrow> ''none'' | UPPER \<Rightarrow> ''upper'')"

lemma find_case_convert:
  "find (\<lambda>v. snd v = cc) case_convert_map = Some (case_convert_name cc, cc)"
  by (cases cc) (simp_all add: case_convert_map_def case_convert_name_def)

lemma map_of_case_convert: "map_of case_convert_map (c_str (case_convert_name cc)) = Some cc"
  by (cases cc) (simp_all add: case_convert_map_def case_convert_name_def c_str_def)

definition config_members :: "options_t \<Rightarrow> (string \<times> json) list" where
  "config_members opts =
     [(''locale'', JString (locale_name opts)),
      (''caseConvert'', JString (case_convert_name (case_convert opts)))]
     @ (if explicit_stopwords opts \<noteq> [] \<or> explicit_stopwords_set opts
        then [(''stopwords'', JArray (map JString (explicit_stopwords opts)))] else [])
     @ [(''noAccent'', JBool (no_accent opts)), (''noStem'', JBool (no_stem opts))]
     @ (if path_is_set (stopwordsPath opts)
        then [(''stopwordsPath'', JString (stopwordsPath opts))] else [])"

lemma config_document_members: "config_document opts = Some (JObject (config_members opts))"
  by (simp add: config_document_def find_case_convert config_members_def)

lemma config_members_lookup:
  "map_of (config_members opts) ''locale'' = Some (JString (locale_name opts))"
  "map_of (config_members opts) ''caseConvert''
     = Some (JString (case_convert_name (case_convert opts)))"
  "map_of (config_members opts) ''stopwords''
     = (if explicit_stopwords opts \<noteq> [] \<or> explicit_stopwords_set opts
        then Some (JArray (map JString (explicit_stopwords opts))) else None)"
  "map_of (config_members opts) ''noAccent'' = Some (JBool (no_accent opts))"
  "map_of (config_members opts) ''noStem'' = Some (JBool (no_stem opts))"
  "map_of (config_members opts) ''stopwordsPath''
     = (if path_is_set (stopwordsPath opts) then Some (JString (stopwordsPath opts)) else None)"
  by (simp_all add: config_members_def)

definition reparsed :: "(string list \<Rightarrow> string list) \<Rightarrow> options_t \<Rightarrow> options_t" where
  "reparsed order opts =
     \<lparr> case_convert = case_convert opts,
       explicit_stopwords = rebuilt order (explicit_stopwords opts),
       explicit_stopwords_set = (explicit_stopwords opts \<noteq> [] \<or> explicit_stopwords_set opts),
       locale_name = locale_name opts,
       no_accent = no_accent opts,
       no_stem = no_stem opts,
       stopwordsPath = (if path_is_set (stopwordsPath opts) then stopwordsPath opts
                        else [CHR 0x00]) \<rparr>"

lemma parse_options_config:
  assumes "valid_options opts"
  shows "parse_options order (config_members opts) (locale_name opts) = Some (reparsed order opts)"
proof -
  from assms have v: "CHR 0x00 \<notin> set (locale_name opts)"
    "list_all (\<lambda>w. CHR 0x00 \<notin> set w) (explicit_stopwords opts)"
    "path_is_set (stopwordsPath opts) \<Longrightarrow> CHR 0x00 \<notin> set (stopwordsPath opts)"
    by (simp_all add: valid_options_def split: if_splits)
  have 1: "parse_case_convert (config_members opts)
        (default_options\<lparr> locale_name := c_str (locale_name opts) \<rparr>)
      = Some (default_options\<lparr> locale_name := locale_name opts,
                case_convert := case_convert opts \<rparr>)"
    by (simp add: parse_case_convert_def config_members_lookup map_of_case_convert c_str_id v(1))
  have 2: "parse_stopwords_and_path order (config_members opts)
        (default_options\<lparr> locale_name := locale_name opts, case_convert := case_convert opts \<rparr>)
      = Some (default_options\<lparr> locale_name := locale_name opts,
                case_convert := case_convert opts,
                explicit_stopwords_set :=
                  (explicit_stopwords opts \<noteq> [] \<or> explicit_stopwords_set opts),
                explicit_stopwords := rebuilt order (explicit_stopwords opts),
                stopwordsPath := (if path_is_set (stopwordsPath opts) then stopwordsPath opts
                                  else [CHR 0x00]) \<rparr>)"
    using v(3)
    by (auto simp: parse_stopwords_and_path_def parse_path_def config_members_lookup
        parse_stop_words_strings[OF v(2)] c_str_id default_options_def rebuilt_def)
  show ?thesis
    unfolding parse_options_def 1 Option.bind.simps 2
    by (simp add: parse_no_accent_def parse_no_stem_def config_members_lookup
        reparsed_def default_options_def)
qed

lemma config_members_reparsed:
  assumes "rebuilt order (explicit_stopwords opts) = explicit_stopwords opts"
  shows "config_members (reparsed order opts) = config_members opts"
  using assms by (auto simp: config_members_def reparsed_def path_is_set_def)


lemma options_constructed: "options (make_text_token_stream icu opts stopw) = opts"
  by (simp add: make_text_token_stream_def)

lemma construct_options:
  "options (fst (construct icu m key opts stopw))
     = (case m (ref_bytes key) of None \<Rightarrow> opts | Some e \<Rightarrow> options_t.truncate e)"
  by (cases "m (ref_bytes key)")
     (simp_all add: construct_def try_emplace_present try_emplace_absent truncate_generator
       options_constructed)

text \<open>
  An example of RapidJSON for documents of strings, booleans, arrays and objects: a
  writer without escapes, and a reader that knows the documents of a list. In
  \<open>newest_first\<close> a new element comes first in the iteration order of the hash set.
\<close>

fun write_json :: "json \<Rightarrow> string" where
  "write_json JNull = ''null''"
| "write_json (JBool b) = (if b then ''true'' else ''false'')"
| "write_json (JNumber n) = ''0''"
| "write_json (JString s) = quote # s @ [quote]"
| "write_json (JArray xs) = ''['' @ join '','' (map write_json xs) @ '']''"
| "write_json (JObject ms) =
     ''{'' @ join '','' (map (\<lambda>(k, v). quote # k @ [quote] @ '':'' @ write_json v) ms) @ ''}''"

definition example_rapidjson :: "json list \<Rightarrow> rapidjson" where
  "example_rapidjson docs =
     \<lparr> Parse = (\<lambda>s. find (\<lambda>doc. write_json doc = s) docs), Write = write_json \<rparr>"

definition two_stopwords :: options_t where
  "two_stopwords =
     \<lparr> case_convert = NONE, explicit_stopwords = [''a'', ''b''], explicit_stopwords_set = True,
       locale_name = ''en'', no_accent = False, no_stem = False, stopwordsPath = [CHR 0x00] \<rparr>"

definition newest_first :: "string list \<Rightarrow> string list" where
  "newest_first xs = xs"

lemma two_stopwords_valid: "valid_options two_stopwords"
  by (simp add: valid_options_def two_stopwords_def path_is_set_def)

lemma newest_first_rebuilt: "rebuilt newest_first [''a'', ''b''] = [''b'', ''a'']"
  by (simp add: rebuilt_def emplace_def newest_first_def)

lemma two_stopwords_rebuilt: "rebuilt newest_first (explicit_stopwords two_stopwords) = [''b'', ''a'']"
  by (simp add: two_stopwords_def newest_first_rebuilt)

lemma write_two_stopwords:
  "write_json (JObject (config_members two_stopwords))
     = ''{'' @ [quote] @ ''locale'' @ [quote] @ '':'' @ [quote] @ ''en'' @ [quote] @ '',''
       @ [quote] @ ''caseConvert'' @ [quote] @ '':'' @ [quote] @ ''none'' @ [quote] @ '',''
       @ [quote] @ ''stopwords'' @ [quote] @ '':['' @ [quote] @ ''a'' @ [quote] @ '',''
       @ [quote] @ ''b'' @ [quote] @ ''],''
       @ [quote] @ ''noAccent'' @ [quote] @ '':false,''
       @ [quote] @ ''noStem'' @ [quote] @ '':false}''"
  by (simp add: config_members_def two_stopwords_def case_convert_name_def path_is_set_def)


lemma make_json_fresh:
  assumes "valid_options opts" "Parse rj j = config_document opts" "m j = None"
    "build_stopwords fs (reparsed order opts) {} = (True, stopw, lds)"
  shows "make_json fs icu rj order m (Some j)
     = (Some (make_text_token_stream icu (reparsed order opts) stopw),
        m(j \<mapsto> generator (Some j)
               (options_t.extend (reparsed order opts) (cached_options_t.fields [] stopw))),
        lds)"
proof -
  have n: "m (ref_bytes (Some j)) = None" using assms(3) by (simp add: ref_bytes_def)
  have c: "construct icu m (Some j) (reparsed order opts) stopw
     = (make_text_token_stream icu (reparsed order opts) stopw,
        m(j \<mapsto> generator (Some j)
               (options_t.extend (reparsed order opts) (cached_options_t.fields [] stopw))))"
    by (simp add: construct_def try_emplace_absent[where m = m and key = "Some j", OF n]
        truncate_generator ref_bytes_def)
  show ?thesis
    by (simp add: make_json_def ref_bytes_def assms(2,4) config_document_members
        config_members_lookup parse_options_config[OF assms(1)] c)
qed

lemma example_reads:
  "Parse (example_rapidjson [JObject (config_members opts)])
     (write_json (JObject (config_members opts))) = config_document opts"
  by (simp add: example_rapidjson_def config_document_members)

lemma to_string_example:
  "to_string (example_rapidjson docs) (make_text_token_stream icu opts stopw) json_format d
     = (True, write_json (JObject (config_members opts)))"
  by (simp add: to_string_def make_json_config_def config_document_members
      options_constructed example_rapidjson_def)

lemma build_stopwords_explicit:
  "explicit_stopwords opts \<noteq> [] \<Longrightarrow> \<not> path_is_set (stopwordsPath opts) \<Longrightarrow>
   build_stopwords fs opts {} = (True, set (explicit_stopwords opts), [])"
  by (simp add: build_stopwords_def)

text \<open>
  C4, as stated for every valid configuration, fails: the configuration with the two
  explicit stopwords \<open>a\<close> and \<open>b\<close> (iterated in this order) is serialized with the array
  \<open>["a","b"]\<close>; \<open>make_json\<close> inserts \<open>a\<close>, then \<open>b\<close> into the set of the new analyzer;
  where the set iterates its newest element first, the new analyzer is serialized with
  the array \<open>["b","a"]\<close>, and the two outputs differ.
\<close>

theorem json_round_trip_counterexample:
  "valid_options two_stopwords
   \<and> to_string (example_rapidjson [JObject (config_members two_stopwords)])
        (make_text_token_stream ascii_icu two_stopwords {''a'', ''b''}) json_format []
       = (True, write_json (JObject (config_members two_stopwords)))
   \<and> fst (make_json (\<lambda>path loc. None) ascii_icu
             (example_rapidjson [JObject (config_members two_stopwords)]) newest_first
             Map.empty (Some (write_json (JObject (config_members two_stopwords)))))
       = Some (make_text_token_stream ascii_icu (reparsed newest_first two_stopwords)
                 {''a'', ''b''})
   \<and> explicit_stopwords (reparsed newest_first two_stopwords) = [''b'', ''a'']
   \<and> to_string (example_rapidjson [JObject (config_members two_stopwords)])
        (make_text_token_stream ascii_icu (reparsed newest_first two_stopwords) {''a'', ''b''})
        json_format []
       = (True, write_json (JObject (config_members (reparsed newest_first two_stopwords))))
   \<and> write_json (JObject (config_members (reparsed newest_first two_stopwords)))
       \<noteq> write_json (JObject (config_members two_stopwords))"
proof -
  let ?rj = "example_rapidjson [JObject (config_members two_stopwords)]"
  let ?j = "write_json (JObject (config_members two_stopwords))"
  let ?o' = "reparsed newest_first two_stopwords"
  have r: "explicit_stopwords ?o' = [''b'', ''a'']"
    by (simp add: reparsed_def two_stopwords_rebuilt)
  have p: "\<not> path_is_set (stopwordsPath ?o')"
    by (simp add: reparsed_def two_stopwords_def path_is_set_def)
  have b: "build_stopwords (\<lambda>path loc. None) ?o' {} = (True, {''a'', ''b''}, [])"
    using build_stopwords_explicit[of ?o' "\<lambda>path loc. None"] p by (auto simp: r)
  have e: "Map.empty ?j = (None :: cached_options_t option)" by simp
  have mk: "fst (make_json (\<lambda>path loc. None) ascii_icu ?rj newest_first Map.empty (Some ?j))
       = Some (make_text_token_stream ascii_icu ?o' {''a'', ''b''})"
    by (simp only: make_json_fresh[OF two_stopwords_valid example_reads e b, of ascii_icu]
        fst_conv)
  have w': "write_json (JObject (config_members ?o'))
     = ''{'' @ [quote] @ ''locale'' @ [quote] @ '':'' @ [quote] @ ''en'' @ [quote] @ '',''
       @ [quote] @ ''caseConvert'' @ [quote] @ '':'' @ [quote] @ ''none'' @ [quote] @ '',''
       @ [quote] @ ''stopwords'' @ [quote] @ '':['' @ [quote] @ ''b'' @ [quote] @ '',''
       @ [quote] @ ''a'' @ [quote] @ ''],''
       @ [quote] @ ''noAccent'' @ [quote] @ '':false,''
       @ [quote] @ ''noStem'' @ [quote] @ '':false}''"
    by (simp add: config_members_def reparsed_def newest_first_rebuilt two_stopwords_def
        case_convert_name_def path_is_set_def)
  have ne: "write_json (JObject (config_members ?o')) \<noteq> ?j"
    unfolding w' write_two_stopwords by simp
  have t1: "to_string ?rj (make_text_token_stream ascii_icu two_stopwords {''a'', ''b''})
       json_format [] = (True, ?j)"
    by (rule to_string_example)
  have t2: "to_string ?rj (make_text_token_stream ascii_icu ?o' {''a'', ''b''}) json_format []
       = (True, write_json (JObject (config_members ?o')))"
    by (rule to_string_example)
  from two_stopwords_valid t1 mk r t2 ne show ?thesis by (intro conjI)
qed

text \<open>
  C4, amended: for every valid configuration whose explicit stopwords the rebuilt set
  iterates in the same order (always so with no or one explicit stopword, hence with an
  empty stopwords array), where the reader gives back the document that was written and
  the cache holds no entry under the serialized string or one with the same
  configuration document: serializing in the JSON format, constructing an analyzer from
  the output with \<open>make_json\<close> and serializing again gives the first output.
\<close>

theorem json_round_trip:
  assumes valid: "valid_options (options a)"
    and stable: "length (explicit_stopwords (options a)) \<le> 1
       \<or> rebuilt order (explicit_stopwords (options a)) = explicit_stopwords (options a)"
    and first: "to_string rj a json_format d = (ok, j)"
    and reads: "Parse rj j = config_document (options a)"
    and built: "make_json fs icu rj order m (Some j) = (Some a', m', loads)"
    and cached: "\<forall>e. m j = Some e \<longrightarrow>
       config_document (options_t.truncate e) = config_document (options a)"
  shows "ok \<and> to_string rj a' json_format d' = (True, j)"
proof -
  let ?ms = "config_members (options a)"
  let ?o' = "reparsed order (options a)"
  have doc: "config_document (options a) = Some (JObject ?ms)"
    by (rule config_document_members)
  from first have ok: "ok" and j: "j = Write rj (JObject ?ms)"
    by (simp_all add: to_string_def make_json_config_def doc)
  from stable have st: "rebuilt order (explicit_stopwords (options a)) = explicit_stopwords (options a)"
    using rebuilt_short by blast
  have same: "config_document ?o' = config_document (options a)"
    by (simp add: config_document_members config_members_reparsed[OF st])
  obtain okb stopw lds where b: "build_stopwords fs ?o' {} = (okb, stopw, lds)"
    by (cases "build_stopwords fs ?o' {}")
  from built have a': "a' = fst (construct icu m (Some j) ?o' stopw)"
    by (auto simp: make_json_def ref_bytes_def reads doc config_members_lookup
        parse_options_config[OF valid] b split: if_splits prod.splits)
  have "config_document (options a') = config_document (options a)"
  proof (cases "m j")
    case None
    then show ?thesis by (simp add: a' construct_options ref_bytes_def same)
  next
    case (Some e)
    with cached show ?thesis by (simp add: a' construct_options ref_bytes_def)
  qed
  then have "to_string rj a' json_format d' = (True, j)"
    by (simp add: to_string_def make_json_config_def doc j)
  with ok show ?thesis by simp
qed

theorem json_round_trip_witness:
  "valid_options (options (make_text_token_stream ascii_icu example_options {''the''}))
   \<and> length (explicit_stopwords
        (options (make_text_token_stream ascii_icu example_options {''the''}))) \<le> 1
   \<and> to_string (example_rapidjson [JObject (config_members example_options)])
        (make_text_token_stream ascii_icu example_options {''the''}) json_format []
       = (True, write_json (JObject (config_members example_options)))
   \<and> fst (make_json (\<lambda>path loc. None) ascii_icu
             (example_rapidjson [JObject (config_members example_options)]) newest_first
             Map.empty (Some (write_json (JObject (config_members example_options)))))
       = Some (make_text_token_stream ascii_icu (reparsed newest_first example_options)
                 {''the''})
   \<and> to_string (example_rapidjson [JObject (config_members example_options)])
        (make_text_token_stream ascii_icu (reparsed newest_first example_options) {''the''})
        json_format []
       = (True, write_json (JObject (config_members example_options)))"
proof -
  let ?rj = "example_rapidjson [JObject (config_members example_options)]"
  let ?j = "write_json (JObject (config_members example_options))"
  let ?a = "make_text_token_stream ascii_icu example_options {''the''}"
  let ?o' = "reparsed newest_first example_options"
  let ?a' = "make_text_token_stream ascii_icu ?o' {''the''}"
  have o: "options ?a = example_options" by (rule options_constructed)
  have v: "valid_options (options ?a)"
    unfolding o by (simp add: valid_options_def example_options_simps path_is_set_def)
  have l: "length (explicit_stopwords (options ?a)) \<le> 1
      \<or> rebuilt newest_first (explicit_stopwords (options ?a)) = explicit_stopwords (options ?a)"
    unfolding o by (simp add: example_options_simps)
  have f: "to_string ?rj ?a json_format [] = (True, ?j)" by (rule to_string_example)
  have rd: "Parse ?rj ?j = config_document (options ?a)"
    unfolding o by (rule example_reads)
  have r: "explicit_stopwords ?o' = [''the'']"
    by (simp add: reparsed_def rebuilt_short example_options_simps)
  have p: "\<not> path_is_set (stopwordsPath ?o')"
    by (simp add: reparsed_def example_options_simps path_is_set_def)
  have b: "build_stopwords (\<lambda>path loc. None) ?o' {} = (True, {''the''}, [])"
    using build_stopwords_explicit[of ?o' "\<lambda>path loc. None"] p by (simp add: r)
  have e: "Map.empty ?j = (None :: cached_options_t option)" by simp
  note mk = make_json_fresh[OF v[unfolded o] example_reads e b, of ascii_icu]
  have c: "\<forall>e. Map.empty ?j = Some e \<longrightarrow>
      config_document (options_t.truncate (e :: cached_options_t)) = config_document (options ?a)"
    by simp
  from json_round_trip[OF v l f rd mk c, of "[]"]
  have t: "to_string ?rj ?a' json_format [] = (True, ?j)" by simp
  have l1: "length (explicit_stopwords (options ?a)) \<le> 1"
    unfolding o by (simp add: example_options_simps)
  have m1: "fst (make_json (\<lambda>path loc. None) ascii_icu ?rj newest_first Map.empty (Some ?j))
      = Some ?a'"
    by (simp only: mk fst_conv)
  from v l1 f m1 t show ?thesis by (intro conjI)
qed

end
